theory Spec2Isabelle
  imports Main "HOL-Library.Multiset"
begin

section \<open>Data model (types.ts)\<close>

text \<open>
  The four suit symbols and the thirteen rank labels of \<^verbatim>\<open>types.ts\<close> are closed
  enumerations. \<open>RANKS\<close> lists the ranks in the order of the source and
  \<open>RANK_VALUES\<close> is the table Ace = 1 up to King = 13.
\<close>

datatype Suit = Spades | Hearts | Diamonds | Clubs

datatype Rank = RA | R2 | R3 | R4 | R5 | R6 | R7 | R8 | R9 | R10 | RJ | RQ | RK

definition RANKS :: "Rank list" where
  "RANKS = [RA, R2, R3, R4, R5, R6, R7, R8, R9, R10, RJ, RQ, RK]"

fun RANK_VALUES :: "Rank \<Rightarrow> int" where
  "RANK_VALUES RA = 1"
| "RANK_VALUES R2 = 2"
| "RANK_VALUES R3 = 3"
| "RANK_VALUES R4 = 4"
| "RANK_VALUES R5 = 5"
| "RANK_VALUES R6 = 6"
| "RANK_VALUES R7 = 7"
| "RANK_VALUES R8 = 8"
| "RANK_VALUES R9 = 9"
| "RANK_VALUES R10 = 10"
| "RANK_VALUES RJ = 11"
| "RANK_VALUES RQ = 12"
| "RANK_VALUES RK = 13"

text \<open>
  A card is the interface \<open>Card\<close>; its field \<open>id\<close> is called \<open>id_card\<close> here,
  since \<open>id\<close> is the identity function of HOL.
\<close>

record Card =
  id_card :: string
  suit :: Suit
  rank :: Rank
  faceUp :: bool

text \<open>
  The counters of a game state are JavaScript numbers, that is IEEE 754 doubles. The
  engine only ever stores integers in them (it starts from 0, 500 and 0 and adds 1, -1
  or 100), so a counter is modelled by the integer it holds, and the arithmetic on
  counters (\<open>js_add\<close>, \<open>js_sub\<close> below) rounds as the doubles do. Counters that
  hold a fraction, an infinity or NaN are outside the model.
\<close>

record GameState =
  columns :: "Card list list"
  stock :: "Card list list"
  completedRuns :: int
  score :: int
  moves :: int
  difficulty :: int

section \<open>Arithmetic of JavaScript numbers on integers\<close>

text \<open>
  A double has a significand of 53 bits: every integer of magnitude up to \<open>2^53 =
  9007199254740992\<close> is a double, and from there on the doubles are the multiples of
  \<open>doubleUlp\<close>, the power of two that doubles with each further binary digit. The
  sum or difference of two integers is the exact result rounded to the nearest double,
  a tie going to the double with the even significand (\<open>roundDouble\<close>). Adding 1, -1
  or 100 to a double cannot overflow to infinity.
\<close>

function doubleUlp :: "int \<Rightarrow> int" where
  "doubleUlp a = (if a < 9007199254740992 then 1 else 2 * doubleUlp (a div 2))"
  by pat_completeness auto
termination
  by (relation "measure nat") auto

declare doubleUlp.simps [simp del]

definition roundDouble :: "int \<Rightarrow> int" where
  "roundDouble x =
     (let a = \<bar>x\<bar>;
          u = doubleUlp a;
          q = a div u;
          r = a mod u;
          m = (if 2 * r < u then q
               else if 2 * r > u then q + 1
               else if even q then q else q + 1)
      in sgn x * (m * u))"

definition js_add :: "int \<Rightarrow> int \<Rightarrow> int" where
  "js_add x y = roundDouble (x + y)"

definition js_sub :: "int \<Rightarrow> int \<Rightarrow> int" where
  "js_sub x y = roundDouble (x - y)"

section \<open>Array reads and errors\<close>

text \<open>
  Reading a JavaScript array at an integer index outside \<open>0 .. length - 1\<close> yields
  \<open>undefined\<close> (\<open>None\<close> here); reading a property of \<open>undefined\<close> throws a
  \<open>TypeError\<close>, which is the only exception the engine can raise.
\<close>

datatype error = TypeError

definition nth_js :: "'a list \<Rightarrow> int \<Rightarrow> 'a option" where
  "nth_js xs i = (if 0 \<le> i \<and> i < int (length xs) then Some (xs ! nat i) else None)"

section \<open>Sequence validation and move legality (gameLogic.ts)\<close>

definition getRankValue :: "Rank \<Rightarrow> int" where
  "getRankValue r = RANK_VALUES r"

text \<open>
  The loop of \<open>isValidSequence\<close>, with its loop variable \<open>i\<close> as an argument.
  Each read \<open>cards[i]\<close> whose result is \<open>undefined\<close> throws at the property access
  that follows it.
\<close>

function isValidSequence_loop :: "Card list \<Rightarrow> int \<Rightarrow> int \<Rightarrow> error + bool" where
  "isValidSequence_loop cards startIndex i =
     (if i < int (length cards) then
        (case nth_js cards i of
           None \<Rightarrow> Inl TypeError
         | Some c \<Rightarrow>
             if \<not> faceUp c then Inr False
             else if i > startIndex then
               (case nth_js cards (i - 1) of
                  None \<Rightarrow> Inl TypeError
                | Some p \<Rightarrow>
                    if suit c \<noteq> suit p then Inr False
                    else if getRankValue (rank p) - getRankValue (rank c) \<noteq> 1 then Inr False
                    else isValidSequence_loop cards startIndex (i + 1))
             else isValidSequence_loop cards startIndex (i + 1))
      else Inr True)"
  by pat_completeness auto
termination
  by (relation "measure (\<lambda>(cards, startIndex, i). nat (int (length cards) - i))") auto

declare isValidSequence_loop.simps [simp del]

definition isValidSequence :: "Card list \<Rightarrow> int \<Rightarrow> error + bool" where
  "isValidSequence cards startIndex = isValidSequence_loop cards startIndex startIndex"

text \<open>
  \<open>canMoveCards\<close> receives \<open>state.columns[idx]\<close> from \<open>moveCards\<close>, which is
  \<open>undefined\<close> for a column index out of range: both column arguments are optional
  values, and the first \<open>.length\<close> read of an undefined column throws. The test
  \<open>startIndex < 0\<close> is evaluated before \<open>sourceCol.length\<close> is read.
\<close>

definition canMoveCards :: "Card list option \<Rightarrow> int \<Rightarrow> Card list option \<Rightarrow> error + bool" where
  "canMoveCards sourceCol startIndex targetCol =
     (if startIndex < 0 then Inr False
      else (case sourceCol of
        None \<Rightarrow> Inl TypeError
      | Some src \<Rightarrow>
          if startIndex \<ge> int (length src) then Inr False
          else (case isValidSequence src startIndex of
            Inl e \<Rightarrow> Inl e
          | Inr valid \<Rightarrow>
              if \<not> valid then Inr False
              else (case targetCol of
                None \<Rightarrow> Inl TypeError
              | Some tgt \<Rightarrow>
                  if length tgt = 0 then Inr True
                  else (case nth_js tgt (int (length tgt) - 1) of
                    None \<Rightarrow> Inl TypeError
                  | Some targetTopCard \<Rightarrow>
                      if \<not> faceUp targetTopCard then Inr False
                      else (case nth_js src startIndex of
                         None \<Rightarrow> Inl TypeError
                       | Some movingBottomCard \<Rightarrow>
                           Inr (getRankValue (rank targetTopCard)
                                  - getRankValue (rank movingBottomCard) = 1)))))))"

section \<open>Completed runs\<close>

record CompleteRun =
  found :: bool
  startIndex :: int

definition notFound :: CompleteRun where
  "notFound = \<lparr>found = False, startIndex = -1\<rparr>"

text \<open>
  The closing loop of \<open>checkCompleteRun\<close>: every card from \<open>startIndex\<close> on has
  the suit of the last card.
\<close>

function sameSuit_loop :: "Card list \<Rightarrow> Suit \<Rightarrow> int \<Rightarrow> error + bool" where
  "sameSuit_loop column s i =
     (if i < int (length column) then
        (case nth_js column i of
           None \<Rightarrow> Inl TypeError
         | Some c \<Rightarrow> if suit c \<noteq> s then Inr False else sameSuit_loop column s (i + 1))
      else Inr True)"
  by pat_completeness auto
termination
  by (relation "measure (\<lambda>(column, s, i). nat (int (length column) - i))") auto

declare sameSuit_loop.simps [simp del]

definition checkCompleteRun :: "Card list \<Rightarrow> error + CompleteRun" where
  "checkCompleteRun column =
     (if length column < 13 then Inr notFound
      else
        let startIdx = int (length column) - 13 in
        (case nth_js column (int (length column) - 1) of
           None \<Rightarrow> Inl TypeError
         | Some bottomCard \<Rightarrow>
             if getRankValue (rank bottomCard) \<noteq> 1 then Inr notFound
             else (case nth_js column startIdx of
                None \<Rightarrow> Inl TypeError
              | Some topCard \<Rightarrow>
                  if getRankValue (rank topCard) \<noteq> 13 then Inr notFound
                  else (case isValidSequence column startIdx of
                     Inl e \<Rightarrow> Inl e
                   | Inr valid \<Rightarrow>
                       if \<not> valid then Inr notFound
                       else (case sameSuit_loop column (suit bottomCard) startIdx of
                          Inl e \<Rightarrow> Inl e
                        | Inr same \<Rightarrow>
                            if \<not> same then Inr notFound
                            else Inr \<lparr>found = True, startIndex = startIdx\<rparr>)))))"

text \<open>
  Both \<open>moveCards\<close> and \<open>removeCompleteRuns\<close> end with the same statement on a
  column: when the column is not empty and its last card is face-down, that card is
  replaced by a face-up copy.
\<close>

definition flipTop :: "Card list \<Rightarrow> Card list" where
  "flipTop col =
     (if length col > 0 then
        (let topCard = col ! (length col - 1) in
         if \<not> faceUp topCard then col[length col - 1 := topCard\<lparr>faceUp := True\<rparr>] else col)
      else col)"

text \<open>
  The loop of \<open>removeCompleteRuns\<close> over the column indices; its state is the copy
  \<open>newColumns\<close> and the two counters. \<open>splice(result.startIndex)\<close> keeps the cards
  below \<open>startIndex\<close>.
\<close>

function removeCompleteRuns_loop ::
  "nat \<Rightarrow> Card list list \<times> int \<times> int \<Rightarrow> error + (Card list list \<times> int \<times> int)" where
  "removeCompleteRuns_loop colIdx (newColumns, runs, sc) =
     (if colIdx < length newColumns then
        (case checkCompleteRun (newColumns ! colIdx) of
           Inl e \<Rightarrow> Inl e
         | Inr result \<Rightarrow>
             if found result then
               removeCompleteRuns_loop (colIdx + 1)
                 (newColumns[colIdx := flipTop (take (nat (startIndex result)) (newColumns ! colIdx))],
                  js_add runs 1, js_add sc 100)
             else removeCompleteRuns_loop (colIdx + 1) (newColumns, runs, sc))
      else Inr (newColumns, runs, sc))"
  by pat_completeness auto
termination
  by (relation "measure (\<lambda>(colIdx, newColumns, runs, sc). length newColumns - colIdx)") auto

declare removeCompleteRuns_loop.simps [simp del]

definition removeCompleteRuns :: "GameState \<Rightarrow> error + GameState" where
  "removeCompleteRuns state =
     (case removeCompleteRuns_loop 0 (columns state, completedRuns state, score state) of
        Inl e \<Rightarrow> Inl e
      | Inr (newColumns, runs, sc) \<Rightarrow>
          Inr (state\<lparr>columns := newColumns, completedRuns := runs, score := sc\<rparr>))"

section \<open>Moves, deals and the win test\<close>

text \<open>
  When \<open>canMoveCards\<close> has returned \<open>true\<close>, both columns are defined and
  \<open>startIndex\<close> is an index of the source column (lemma \<open>canMoveCards_True\<close>
  below), so that the reads of the accepting branch are in range.
\<close>

definition moveCards :: "GameState \<Rightarrow> int \<Rightarrow> int \<Rightarrow> int \<Rightarrow> error + GameState" where
  "moveCards state sourceColIdx startIdx targetColIdx =
     (if sourceColIdx = targetColIdx then Inr state
      else (case canMoveCards (nth_js (columns state) sourceColIdx) startIdx
                   (nth_js (columns state) targetColIdx) of
        Inl e \<Rightarrow> Inl e
      | Inr ok \<Rightarrow>
          if \<not> ok then Inr state
          else
            let newColumns = columns state;
                movingCards = drop (nat startIdx) (newColumns ! nat sourceColIdx);
                newColumns = newColumns[nat sourceColIdx :=
                               take (nat startIdx) (newColumns ! nat sourceColIdx)];
                newColumns = newColumns[nat targetColIdx :=
                               newColumns ! nat targetColIdx @ movingCards];
                newColumns = newColumns[nat sourceColIdx :=
                               flipTop (newColumns ! nat sourceColIdx)];
                newState = state\<lparr>columns := newColumns,
                                 moves := js_add (moves state) 1,
                                 score := js_sub (score state) 1\<rparr>
            in removeCompleteRuns newState))"

text \<open>
  \<open>dealFromStock\<close> returns \<open>null\<close> (\<open>None\<close>) or the new state. The callback of
  \<open>columns.map\<close> receives each column with its index.
\<close>

definition dealFromStock :: "GameState \<Rightarrow> error + GameState option" where
  "dealFromStock state =
     (if length (stock state) = 0 then Inr None
      else if list_ex (\<lambda>col. length col = 0) (columns state) then Inr None
      else
        let newStock = butlast (stock state);
            dealPile = last (stock state);
            newColumns = map (\<lambda>(col, idx).
                            if idx < length dealPile
                            then col @ [(dealPile ! idx)\<lparr>faceUp := True\<rparr>]
                            else col)
                          (zip (columns state) [0..<length (columns state)]);
            newState = state\<lparr>columns := newColumns,
                             stock := newStock,
                             moves := js_add (moves state) 1\<rparr>
        in (case removeCompleteRuns newState of
              Inl e \<Rightarrow> Inl e
            | Inr s \<Rightarrow> Inr (Some s)))"

definition isGameWon :: "GameState \<Rightarrow> bool" where
  "isGameWon state = (completedRuns state = 8)"

section \<open>Specification predicates\<close>

text \<open>
  The specification's description of a valid sequence: every card from index \<open>n\<close>
  to the end of the column is face-up, and every card above index \<open>n\<close> has the suit
  of the card below it and a rank value smaller by exactly 1.
\<close>

definition adjacentOk :: "Card list \<Rightarrow> nat \<Rightarrow> bool" where
  "adjacentOk cards k \<longleftrightarrow>
     suit (cards ! k) = suit (cards ! (k - 1)) \<and>
     getRankValue (rank (cards ! (k - 1))) - getRankValue (rank (cards ! k)) = 1"

definition validFrom :: "Card list \<Rightarrow> nat \<Rightarrow> bool" where
  "validFrom cards n \<longleftrightarrow>
     (\<forall>k\<in>{n..<length cards}. faceUp (cards ! k)) \<and>
     (\<forall>k\<in>{Suc n..<length cards}. adjacentOk cards k)"

text \<open>
  A complete run as the specification's claim words it: at least 13 cards, the last 13
  of one suit, with rank values 13 down to 1 (\<open>completeRunClaimed\<close>); and the same
  with each of the 13 cards face-up in addition (\<open>completeRunAt\<close>).
\<close>

definition completeRunClaimed :: "Card list \<Rightarrow> bool" where
  "completeRunClaimed column \<longleftrightarrow>
     length column \<ge> 13 \<and>
     (\<forall>k\<in>{0..<13}.
        suit (column ! (length column - 13 + k)) = suit (column ! (length column - 13)) \<and>
        getRankValue (rank (column ! (length column - 13 + k))) = 13 - int k)"

definition completeRunAt :: "Card list \<Rightarrow> bool" where
  "completeRunAt column \<longleftrightarrow>
     length column \<ge> 13 \<and>
     (\<forall>k\<in>{0..<13}.
        faceUp (column ! (length column - 13 + k)) \<and>
        suit (column ! (length column - 13 + k)) = suit (column ! (length column - 13)) \<and>
        getRankValue (rank (column ! (length column - 13 + k))) = 13 - int k)"

section \<open>Example cards and columns\<close>

definition mkCard :: "Suit \<Rightarrow> Rank \<Rightarrow> bool \<Rightarrow> Card" where
  "mkCard s r f = \<lparr>id_card = [], suit = s, rank = r, faceUp = f\<rparr>"

text \<open>King down to Ace of spades, the King face-up or not, the other cards face-up.\<close>

definition spadeRun :: "bool \<Rightarrow> Card list" where
  "spadeRun kingUp =
     mkCard Spades RK kingUp #
     map (\<lambda>r. mkCard Spades r True) [RQ, RJ, R10, R9, R8, R7, R6, R5, R4, R3, R2, RA]"

text \<open>
  A small state for concrete evaluations: ten columns, one stock pile of ten cards.
\<close>

definition exampleState :: GameState where
  "exampleState =
     \<lparr>columns =
        [[mkCard Spades R8 False, mkCard Spades R7 True, mkCard Spades R6 True],
         [mkCard Hearts R8 True],
         [mkCard Spades R9 True],
         [mkCard Spades R5 True],
         [mkCard Spades RK True],
         [mkCard Hearts RK True],
         [mkCard Spades R2 True],
         [mkCard Hearts R2 True],
         [mkCard Spades RJ True],
         [mkCard Hearts RJ True]],
      stock = [map (\<lambda>r. mkCard Hearts r False) [RA, R2, R3, R4, R5, R6, R7, R8, R9, R10]],
      completedRuns = 0, score = 500, moves = 0, difficulty = 2\<rparr>"

text \<open>
  The same state with the move counter at \<open>2^53\<close> and the score at \<open>-2^53\<close>.
\<close>

definition saturatedState :: GameState where
  "saturatedState =
     exampleState\<lparr>score := - 9007199254740992, moves := 9007199254740992\<rparr>"

section \<open>Deck construction and the initial deal\<close>

text \<open>
  Template strings render a number in decimal and a suit or rank by its symbol; the
  four suit symbols are written as their UTF-8 bytes.
\<close>

fun string_of_nat :: "nat \<Rightarrow> string" where
  "string_of_nat n =
     (if n < 10 then [''0123456789'' ! n]
      else string_of_nat (n div 10) @ [''0123456789'' ! (n mod 10)])"

declare string_of_nat.simps [simp del]

fun string_of_Suit :: "Suit \<Rightarrow> string" where
  "string_of_Suit Spades = [CHR 0xE2, CHR 0x99, CHR 0xA0]"
| "string_of_Suit Hearts = [CHR 0xE2, CHR 0x99, CHR 0xA5]"
| "string_of_Suit Diamonds = [CHR 0xE2, CHR 0x99, CHR 0xA6]"
| "string_of_Suit Clubs = [CHR 0xE2, CHR 0x99, CHR 0xA3]"

fun string_of_Rank :: "Rank \<Rightarrow> string" where
  "string_of_Rank RA = ''A''"
| "string_of_Rank R2 = ''2''"
| "string_of_Rank R3 = ''3''"
| "string_of_Rank R4 = ''4''"
| "string_of_Rank R5 = ''5''"
| "string_of_Rank R6 = ''6''"
| "string_of_Rank R7 = ''7''"
| "string_of_Rank R8 = ''8''"
| "string_of_Rank R9 = ''9''"
| "string_of_Rank R10 = ''10''"
| "string_of_Rank RJ = ''J''"
| "string_of_Rank RQ = ''Q''"
| "string_of_Rank RK = ''K''"

text \<open>
  \<open>createDeck\<close>: the two nested \<open>for ... of\<close> loops are folds over the suits and over
  \<open>RANKS\<close>; their state is the deck built so far and \<open>idCounter\<close>.
\<close>

definition createDeck :: "Suit list \<Rightarrow> Card list" where
  "createDeck suits =
     fst (foldl (\<lambda>(deck, idCounter) s.
            foldl (\<lambda>(deck, idCounter) r.
                     (deck @ [\<lparr>id_card = ''card-'' @ string_of_nat idCounter @ ''-''
                                          @ string_of_Suit s @ ''-'' @ string_of_Rank r,
                               suit = s, rank = r, faceUp = False\<rparr>],
                      idCounter + 1))
                  (deck, idCounter) RANKS)
          ([], 0) suits)"

text \<open>
  \<open>shuffle\<close>: the loop runs \<open>i\<close> from \<open>length - 1\<close> down to 1. The value
  \<open>Math.floor(Math.random() * (i + 1))\<close> is an integer between 0 and \<open>i\<close>; the
  outcomes of the random source are the parameter \<open>rnd\<close>, read at the loop index and
  reduced modulo \<open>i + 1\<close>, so that every \<open>rnd\<close> stands for a possible run and every run
  is given by some \<open>rnd\<close>. The destructuring assignment reads both elements before it
  writes them.
\<close>

fun shuffle_loop :: "(nat \<Rightarrow> nat) \<Rightarrow> nat \<Rightarrow> 'a list \<Rightarrow> 'a list" where
  "shuffle_loop rnd 0 arr = arr"
| "shuffle_loop rnd (Suc i) arr =
     (let j = rnd (Suc i) mod (Suc i + 1)
      in shuffle_loop rnd i (arr[Suc i := arr ! j, j := arr ! Suc i]))"

definition shuffle :: "(nat \<Rightarrow> nat) \<Rightarrow> 'a list \<Rightarrow> 'a list" where
  "shuffle rnd array = shuffle_loop rnd (length array - 1) array"

text \<open>
  The pack: \<open>repeats\<close> decks one after the other, each card with the identifier
  derived from the repeat \<open>i\<close> and its index in the deck.
\<close>

definition suitsOf :: "int \<Rightarrow> Suit list" where
  "suitsOf d =
     (if d = 1 then [Spades]
      else if d = 2 then [Spades, Hearts]
      else [Spades, Hearts, Diamonds, Clubs])"

definition pack :: "Suit list \<Rightarrow> Card list" where
  "pack suits =
     (let repeats = 8 div length suits
      in foldl (\<lambda>allCards i.
           allCards @ map (\<lambda>(c, idx).
                            c\<lparr>id_card := ''card-'' @ string_of_nat i @ ''-'' @ string_of_nat idx
                                            @ ''-'' @ string_of_Suit (suit c)
                                            @ ''-'' @ string_of_Rank (rank c)\<rparr>)
                          (zip (createDeck suits) [0..<length (createDeck suits)]))
         [] [0..<repeats])"

text \<open>
  The deal of the ten columns: a fold over the columns and, inside, over the rows, on the
  columns built so far and \<open>cardIdx\<close>. The pack holds 104 cards (lemma
  \<open>length_pack\<close>) and only the first 54 are read here.
\<close>

definition dealColumns :: "Card list \<Rightarrow> Card list list \<times> nat" where
  "dealColumns allCards =
     foldl (\<lambda>(columns, cardIdx) col.
        let numCards = (if col < 4 then 6 else 5 :: nat)
        in foldl (\<lambda>(columns, cardIdx) row.
                    let card = allCards ! cardIdx;
                        card = (if row = numCards - 1 then card\<lparr>faceUp := True\<rparr> else card)
                    in (columns[col := columns ! col @ [card]], cardIdx + 1))
                 (columns, cardIdx) [0..<numCards])
       (replicate 10 [], 0) [0..<10]"

text \<open>
  The stock: while cards remain, a pile takes the next cards, at most 10 of them.
\<close>

function fillPile :: "Card list \<Rightarrow> nat \<Rightarrow> Card list \<times> nat \<Rightarrow> Card list \<times> nat" where
  "fillPile allCards i (pile, cardIdx) =
     (if i < 10 \<and> cardIdx < length allCards
      then fillPile allCards (i + 1) (pile @ [allCards ! cardIdx], cardIdx + 1)
      else (pile, cardIdx))"
  by pat_completeness auto
termination
  by (relation "measure (\<lambda>(allCards, i, pile, cardIdx). 10 - i)") auto

declare fillPile.simps [simp del]

function dealStock :: "Card list \<Rightarrow> Card list list \<times> nat \<Rightarrow> Card list list" where
  "dealStock allCards (piles, cardIdx) =
     (if cardIdx < length allCards
      then (case fillPile allCards 0 ([], cardIdx) of
              (pile, cardIdx') \<Rightarrow> dealStock allCards (piles @ [pile], cardIdx'))
      else piles)"
  by pat_completeness auto
termination
proof (relation "measure (\<lambda>(allCards, piles, cardIdx). length allCards - cardIdx)")
  show "wf (measure (\<lambda>(allCards, piles, cardIdx). length allCards - cardIdx))"
    by simp
next
  fix allCards :: "Card list" and piles :: "Card list list" and cardIdx :: nat
    and pile :: "Card list" and cardIdx' :: nat
  assume lt: "cardIdx < length allCards"
    and x: "(pile, cardIdx') = fillPile allCards 0 ([], cardIdx)"
  have grow: "snd (fillPile allCards i (p, c)) = c + min (10 - i) (length allCards - c)"
    for i p c
  proof (induction allCards i "(p, c)" arbitrary: p c rule: fillPile.induct)
    case (1 allCards i pile cardIdx)
    show ?case
    proof (cases "i < 10 \<and> cardIdx < length allCards")
      case True
      then have "fillPile allCards i (pile, cardIdx)
                   = fillPile allCards (i + 1) (pile @ [allCards ! cardIdx], cardIdx + 1)"
        by (subst fillPile.simps) simp
      with "1.hyps" [OF True] True show ?thesis
        by (auto simp: min_def)
    next
      case False
      then show ?thesis
        by (subst fillPile.simps) auto
    qed
  qed
  from x have "cardIdx' = snd (fillPile allCards 0 ([], cardIdx))"
    by (metis snd_conv)
  with lt have "cardIdx < cardIdx'" "cardIdx' \<le> length allCards"
    by (auto simp: grow min_def)
  then show "((allCards, piles @ [pile], cardIdx'), allCards, piles, cardIdx)
               \<in> measure (\<lambda>(allCards, piles, cardIdx). length allCards - cardIdx)"
    using lt by simp
qed

declare dealStock.simps [simp del]

definition createGame :: "(nat \<Rightarrow> nat) \<Rightarrow> int \<Rightarrow> GameState" where
  "createGame rnd d =
     (let allCards = shuffle rnd (pack (suitsOf d));
          (columns, cardIdx) = dealColumns allCards;
          piles = dealStock allCards ([], cardIdx)
      in \<lparr>columns = columns, stock = piles, completedRuns = 0, score = 500, moves = 0,
          difficulty = d\<rparr>)"

section \<open>Hint search (App.tsx)\<close>

text \<open>
  \<open>findHint\<close> lives in the user interface and reports through \<open>setSelectedCard\<close>
  and \<open>setHint\<close>. Its outcome is one of four: a move of the first tier (message
  "Move from column ... (same suit!)") or of the second tier (message "Try moving from
  column ...") with the source column, the card index and the target column, all counted
  from 0; the advice to deal from the stock; or "No moves available!".
\<close>

datatype Hint = HintSameSuit nat nat nat | HintAnyMove nat nat nat | HintDeal | HintNone

text \<open>
  Each \<open>for\<close> loop is a function of its loop variable; \<open>None\<close> says that the loop
  ran to its end without reaching a \<open>return\<close>.
\<close>

function hint1_tgt :: "GameState \<Rightarrow> nat \<Rightarrow> nat \<Rightarrow> nat \<Rightarrow> error + Hint option" where
  "hint1_tgt gs srcCol cardIdx tgtCol =
     (if tgtCol < length (columns gs) then
        if tgtCol = srcCol then hint1_tgt gs srcCol cardIdx (tgtCol + 1)
        else if length (columns gs ! tgtCol) = 0 then hint1_tgt gs srcCol cardIdx (tgtCol + 1)
        else (case canMoveCards (nth_js (columns gs) (int srcCol)) (int cardIdx)
                     (nth_js (columns gs) (int tgtCol)) of
           Inl e \<Rightarrow> Inl e
         | Inr ok \<Rightarrow>
             if ok then
               (let tgtTop = (columns gs ! tgtCol) ! (length (columns gs ! tgtCol) - 1)
                in if suit tgtTop = suit (columns gs ! srcCol ! cardIdx)
                   then Inr (Some (HintSameSuit srcCol cardIdx tgtCol))
                   else hint1_tgt gs srcCol cardIdx (tgtCol + 1))
             else hint1_tgt gs srcCol cardIdx (tgtCol + 1))
      else Inr None)"
  by pat_completeness auto
termination
  by (relation "measure (\<lambda>(gs, srcCol, cardIdx, tgtCol). length (columns gs) - tgtCol)") auto

declare hint1_tgt.simps [simp del]

function hint1_card :: "GameState \<Rightarrow> nat \<Rightarrow> nat \<Rightarrow> error + Hint option" where
  "hint1_card gs srcCol cardIdx =
     (if cardIdx < length (columns gs ! srcCol) then
        if \<not> faceUp (columns gs ! srcCol ! cardIdx) then hint1_card gs srcCol (cardIdx + 1)
        else (case isValidSequence (columns gs ! srcCol) (int cardIdx) of
           Inl e \<Rightarrow> Inl e
         | Inr valid \<Rightarrow>
             if \<not> valid then hint1_card gs srcCol (cardIdx + 1)
             else (case hint1_tgt gs srcCol cardIdx 0 of
                Inl e \<Rightarrow> Inl e
              | Inr (Some h) \<Rightarrow> Inr (Some h)
              | Inr None \<Rightarrow> hint1_card gs srcCol (cardIdx + 1)))
      else Inr None)"
  by pat_completeness auto
termination
  by (relation "measure (\<lambda>(gs, srcCol, cardIdx). length (columns gs ! srcCol) - cardIdx)") auto

declare hint1_card.simps [simp del]

function hint1_src :: "GameState \<Rightarrow> nat \<Rightarrow> error + Hint option" where
  "hint1_src gs srcCol =
     (if srcCol < length (columns gs) then
        (case hint1_card gs srcCol 0 of
           Inl e \<Rightarrow> Inl e
         | Inr (Some h) \<Rightarrow> Inr (Some h)
         | Inr None \<Rightarrow> hint1_src gs (srcCol + 1))
      else Inr None)"
  by pat_completeness auto
termination
  by (relation "measure (\<lambda>(gs, srcCol). length (columns gs) - srcCol)") auto

declare hint1_src.simps [simp del]

function hint2_tgt :: "GameState \<Rightarrow> nat \<Rightarrow> nat \<Rightarrow> nat \<Rightarrow> error + Hint option" where
  "hint2_tgt gs srcCol cardIdx tgtCol =
     (if tgtCol < length (columns gs) then
        if tgtCol = srcCol then hint2_tgt gs srcCol cardIdx (tgtCol + 1)
        else (case canMoveCards (nth_js (columns gs) (int srcCol)) (int cardIdx)
                     (nth_js (columns gs) (int tgtCol)) of
           Inl e \<Rightarrow> Inl e
         | Inr ok \<Rightarrow>
             if ok then
               (if length (columns gs ! tgtCol) > 0
                then Inr (Some (HintAnyMove srcCol cardIdx tgtCol))
                else hint2_tgt gs srcCol cardIdx (tgtCol + 1))
             else hint2_tgt gs srcCol cardIdx (tgtCol + 1))
      else Inr None)"
  by pat_completeness auto
termination
  by (relation "measure (\<lambda>(gs, srcCol, cardIdx, tgtCol). length (columns gs) - tgtCol)") auto

declare hint2_tgt.simps [simp del]

function hint2_card :: "GameState \<Rightarrow> nat \<Rightarrow> nat \<Rightarrow> error + Hint option" where
  "hint2_card gs srcCol cardIdx =
     (if cardIdx < length (columns gs ! srcCol) then
        if \<not> faceUp (columns gs ! srcCol ! cardIdx) then hint2_card gs srcCol (cardIdx + 1)
        else (case isValidSequence (columns gs ! srcCol) (int cardIdx) of
           Inl e \<Rightarrow> Inl e
         | Inr valid \<Rightarrow>
             if \<not> valid then hint2_card gs srcCol (cardIdx + 1)
             else (case hint2_tgt gs srcCol cardIdx 0 of
                Inl e \<Rightarrow> Inl e
              | Inr (Some h) \<Rightarrow> Inr (Some h)
              | Inr None \<Rightarrow> hint2_card gs srcCol (cardIdx + 1)))
      else Inr None)"
  by pat_completeness auto
termination
  by (relation "measure (\<lambda>(gs, srcCol, cardIdx). length (columns gs ! srcCol) - cardIdx)") auto

declare hint2_card.simps [simp del]

function hint2_src :: "GameState \<Rightarrow> nat \<Rightarrow> error + Hint option" where
  "hint2_src gs srcCol =
     (if srcCol < length (columns gs) then
        (case hint2_card gs srcCol 0 of
           Inl e \<Rightarrow> Inl e
         | Inr (Some h) \<Rightarrow> Inr (Some h)
         | Inr None \<Rightarrow> hint2_src gs (srcCol + 1))
      else Inr None)"
  by pat_completeness auto
termination
  by (relation "measure (\<lambda>(gs, srcCol). length (columns gs) - srcCol)") auto

declare hint2_src.simps [simp del]

definition findHint :: "GameState \<Rightarrow> error + Hint" where
  "findHint gs =
     (case hint1_src gs 0 of
        Inl e \<Rightarrow> Inl e
      | Inr (Some h) \<Rightarrow> Inr h
      | Inr None \<Rightarrow>
          (case hint2_src gs 0 of
             Inl e \<Rightarrow> Inl e
           | Inr (Some h) \<Rightarrow> Inr h
           | Inr None \<Rightarrow> if length (stock gs) > 0 then Inr HintDeal else Inr HintNone))"

section \<open>Reachable states\<close>

text \<open>
  The states of a game: the state \<open>createGame\<close> returns for a difficulty among 1, 2
  and 4 and any outcome of the shuffle, and every state that \<open>moveCards\<close> or
  \<open>dealFromStock\<close> returns on a state of a game.
\<close>

inductive reachable :: "GameState \<Rightarrow> bool" where
  reach_create: "d \<in> {1, 2, 4} \<Longrightarrow> reachable (createGame rnd d)"
| reach_move: "reachable s \<Longrightarrow> moveCards s src i tgt = Inr s' \<Longrightarrow> reachable s'"
| reach_deal: "reachable s \<Longrightarrow> dealFromStock s = Inr (Some s') \<Longrightarrow> reachable s'"

text \<open>
  A game after its first deal from the stock (the spade-only game whose shuffle draws 0
  at every step).
\<close>

definition afterFirstDeal :: GameState where
  "afterFirstDeal =
     (case dealFromStock (createGame (\<lambda>i. 0) 1) of
        Inr (Some s) \<Rightarrow> s
      | _ \<Rightarrow> createGame (\<lambda>i. 0) 1)"

section \<open>Closed forms of the state transitions\<close>

text \<open>
  What \<open>removeCompleteRuns\<close> does to one column: a column that ends in a complete
  run loses its last 13 cards and has its new top card turned face-up.
\<close>

definition stripRun :: "Card list \<Rightarrow> Card list" where
  "stripRun col = (if completeRunAt col then flipTop (take (length col - 13) col) else col)"

definition runCount :: "Card list list \<Rightarrow> nat" where
  "runCount cols = length (filter completeRunAt cols)"

definition runsIn :: "Card list list \<Rightarrow> int" where
  "runsIn cols = int (runCount cols)"

text \<open>
  The two counters after \<open>n\<close> removals: \<open>completedRuns++\<close> and
  \<open>score += 100\<close>, \<open>n\<close> times over.
\<close>

definition addRuns :: "nat \<Rightarrow> int \<Rightarrow> int" where
  "addRuns n r = ((\<lambda>r. js_add r 1) ^^ n) r"

definition addScore :: "nat \<Rightarrow> int \<Rightarrow> int" where
  "addScore n sc = ((\<lambda>sc. js_add sc 100) ^^ n) sc"

text \<open>
  The state \<open>moveCards\<close> builds before it calls \<open>removeCompleteRuns\<close>, for a source
  column index \<open>src\<close>, a start index \<open>i\<close> and a target column index \<open>tgt\<close>.
\<close>

definition movedState :: "GameState \<Rightarrow> nat \<Rightarrow> nat \<Rightarrow> nat \<Rightarrow> GameState" where
  "movedState s src i tgt =
     s\<lparr>columns := (columns s)[src := flipTop (take i (columns s ! src)),
                                tgt := columns s ! tgt @ drop i (columns s ! src)],
       moves := js_add (moves s) 1,
       score := js_sub (score s) 1\<rparr>"

text \<open>
  The state \<open>dealFromStock\<close> builds before it calls \<open>removeCompleteRuns\<close> when every
  column receives a card: column \<open>k\<close> gains card \<open>k\<close> of the last pile, face-up.
\<close>

definition dealtState :: "GameState \<Rightarrow> GameState" where
  "dealtState s =
     s\<lparr>columns := map (\<lambda>k. columns s ! k @ [(last (stock s) ! k)\<lparr>faceUp := True\<rparr>])
                       [0..<length (columns s)],
       stock := butlast (stock s),
       moves := js_add (moves s) 1\<rparr>"

section \<open>Card counts\<close>

text \<open>
  The number of cards on the table: those of the columns and those of the stock piles.
  \<open>cardsOf\<close> lists them, columns first.
\<close>

definition cardsOf :: "GameState \<Rightarrow> Card list" where
  "cardsOf s = concat (columns s) @ concat (stock s)"

definition cardCount :: "GameState \<Rightarrow> int" where
  "cardCount s = int (length (cardsOf s))"

text \<open>
  The deck in closed form: the card of \<open>createDeck\<close> with counter value \<open>k\<close>, and
  the card of the pack for repeat \<open>i\<close> and deck index \<open>idx\<close>.
\<close>

definition deckCard :: "nat \<Rightarrow> Suit \<Rightarrow> Rank \<Rightarrow> Card" where
  "deckCard k s r =
     \<lparr>id_card = ''card-'' @ string_of_nat k @ ''-'' @ string_of_Suit s @ ''-'' @ string_of_Rank r,
      suit = s, rank = r, faceUp = False\<rparr>"

definition packCard :: "nat \<Rightarrow> Card \<times> nat \<Rightarrow> Card" where
  "packCard i = (\<lambda>(c, idx).
     c\<lparr>id_card := ''card-'' @ string_of_nat i @ ''-'' @ string_of_nat idx
                     @ ''-'' @ string_of_Suit (suit c) @ ''-'' @ string_of_Rank (rank c)\<rparr>)"

section \<open>Invariants of a game\<close>

text \<open>
  Face-up contiguity of a column: whenever a card is face-up, every card above it (at a
  larger index) is face-up as well.
\<close>

definition faceUpContiguous :: "Card list \<Rightarrow> bool" where
  "faceUpContiguous col \<longleftrightarrow>
     (\<forall>i\<in>{0..<length col}. \<forall>j\<in>{i..<length col}. faceUp (col ! i) \<longrightarrow> faceUp (col ! j))"

text \<open>
  No complete run ends anywhere in the column: none of its prefixes ends in a complete
  run (\<open>noBuriedRun\<close>); and the same for the prefixes other than the column itself
  (\<open>noBuriedRunBelow\<close>), which is what holds of a column that has just received cards
  and has not yet been scanned by \<open>removeCompleteRuns\<close>.
\<close>

definition noBuriedRun :: "Card list \<Rightarrow> bool" where
  "noBuriedRun col \<longleftrightarrow> (\<forall>n\<in>{0..length col}. \<not> completeRunAt (take n col))"

definition noBuriedRunBelow :: "Card list \<Rightarrow> bool" where
  "noBuriedRunBelow col \<longleftrightarrow> (\<forall>n\<in>{0..<length col}. \<not> completeRunAt (take n col))"

definition columnInv :: "Card list \<Rightarrow> bool" where
  "columnInv col \<longleftrightarrow> faceUpContiguous col \<and> noBuriedRun col"

definition columnPre :: "Card list \<Rightarrow> bool" where
  "columnPre col \<longleftrightarrow> faceUpContiguous col \<and> noBuriedRunBelow col"

definition gameInv :: "GameState \<Rightarrow> bool" where
  "gameInv s \<longleftrightarrow>
     length (columns s) = 10 \<and>
     (\<forall>pile\<in>set (stock s). length pile = 10) \<and>
     cardCount s + 13 * completedRuns s = 104 \<and>
     0 \<le> completedRuns s \<and>
     (\<forall>col\<in>set (columns s). columnInv col)"

section \<open>The hint search as the specification words it\<close>

text \<open>
  The candidates of the search: source column, card index and target column, in
  source-column-ascending, then card-index-ascending, then target-column-ascending order.
\<close>

definition hintCandidates :: "GameState \<Rightarrow> (nat \<times> nat \<times> nat) list" where
  "hintCandidates gs =
     concat (map (\<lambda>src.
       concat (map (\<lambda>idx. map (\<lambda>tgt. (src, idx, tgt)) [0..<length (columns gs)])
                 [0..<length (columns gs ! src)]))
       [0..<length (columns gs)])"

text \<open>
  A legal move goes from one column to another: the cards of the source column from the
  card index on form a valid sequence (so the card is face-up and starts one), and the
  target column is empty or has a face-up top card whose rank value is one greater than
  the card's. The first tier asks for a target that is not empty and whose top card has
  the suit of the card; the second tier only for a target that is not empty.
\<close>

definition legalMove :: "GameState \<Rightarrow> nat \<times> nat \<times> nat \<Rightarrow> bool" where
  "legalMove gs = (\<lambda>(src, idx, tgt).
     tgt \<noteq> src \<and>
     idx < length (columns gs ! src) \<and>
     validFrom (columns gs ! src) idx \<and>
     (columns gs ! tgt = [] \<or>
      (faceUp (last (columns gs ! tgt)) \<and>
       getRankValue (rank (last (columns gs ! tgt)))
         - getRankValue (rank (columns gs ! src ! idx)) = 1)))"

definition tier1Move :: "GameState \<Rightarrow> nat \<times> nat \<times> nat \<Rightarrow> bool" where
  "tier1Move gs = (\<lambda>(src, idx, tgt).
     legalMove gs (src, idx, tgt) \<and> columns gs ! tgt \<noteq> [] \<and>
     suit (last (columns gs ! tgt)) = suit (columns gs ! src ! idx))"

definition tier2Move :: "GameState \<Rightarrow> nat \<times> nat \<times> nat \<Rightarrow> bool" where
  "tier2Move gs = (\<lambda>(src, idx, tgt).
     legalMove gs (src, idx, tgt) \<and> columns gs ! tgt \<noteq> [])"

definition findHint_spec :: "GameState \<Rightarrow> Hint" where
  "findHint_spec gs =
     (case List.find (tier1Move gs) (hintCandidates gs) of
        Some (src, idx, tgt) \<Rightarrow> HintSameSuit src idx tgt
      | None \<Rightarrow>
          (case List.find (tier2Move gs) (hintCandidates gs) of
             Some (src, idx, tgt) \<Rightarrow> HintAnyMove src idx tgt
           | None \<Rightarrow> if stock gs \<noteq> [] then HintDeal else HintNone))"

text \<open>
  The search order: source column first, then card index, then target column.
\<close>

definition candidateBefore :: "nat \<times> nat \<times> nat \<Rightarrow> nat \<times> nat \<times> nat \<Rightarrow> bool" where
  "candidateBefore = (\<lambda>(s, i, t) (s', i', t').
     s < s' \<or> (s = s' \<and> (i < i' \<or> (i = i' \<and> t < t'))))"

section \<open>Array reads in range\<close>

lemma nth_js_nat [simp]: "nth_js xs (int k) = (if k < length xs then Some (xs ! k) else None)"
  by (simp add: nth_js_def)

lemma nth_js_neg [simp]: "i < 0 \<Longrightarrow> nth_js xs i = None"
  by (simp add: nth_js_def)

section \<open>Sequence validation, move legality and run detection in closed form\<close>

lemma isValidSequence_loop_nat:
  "n \<le> m \<Longrightarrow>
   isValidSequence_loop cards (int n) (int m) =
     Inr (\<forall>k\<in>{m..<length cards}. faceUp (cards ! k) \<and> (n < k \<longrightarrow> adjacentOk cards k))"
proof (induction "length cards - m" arbitrary: m)
  case 0
  then show ?case by (simp add: isValidSequence_loop.simps)
next
  case (Suc d)
  then have lt: "m < length cards" and d: "d = length cards - Suc m" and le: "n \<le> Suc m"
    by simp_all
  have step: "isValidSequence_loop cards (int n) (int (Suc m)) =
     Inr (\<forall>k\<in>{Suc m..<length cards}. faceUp (cards ! k) \<and> (n < k \<longrightarrow> adjacentOk cards k))"
    using Suc.hyps(1) [OF d le] .
  have split: "{m..<length cards} = insert m {Suc m..<length cards}"
    using lt by auto
  have pred: "int m - 1 = int (m - 1)" if "n < m"
    using that by simp
  show ?case
  proof (cases "n < m")
    case True
    then have "m - 1 < length cards" using lt by simp
    with True lt step show ?thesis
      unfolding split
      by (subst isValidSequence_loop.simps)
         (auto simp: pred adjacentOk_def add.commute [of _ 1] simp del: of_nat_diff)
  next
    case False
    with Suc.prems have "n = m" by simp
    with lt step show ?thesis
      unfolding split
      by (subst isValidSequence_loop.simps) (auto simp: add.commute [of _ 1])
  qed
qed

lemma isValidSequence_nat: "isValidSequence cards (int n) = Inr (validFrom cards n)"
  unfolding isValidSequence_def validFrom_def
  by (subst isValidSequence_loop_nat) (auto simp: Suc_le_eq)

lemma isValidSequence_neg: "i < 0 \<Longrightarrow> isValidSequence cards i = Inl TypeError"
  unfolding isValidSequence_def
  by (subst isValidSequence_loop.simps) simp

lemma isValidSequence_nonneg: "0 \<le> i \<Longrightarrow> isValidSequence cards i = Inr (validFrom cards (nat i))"
  using isValidSequence_nat [of cards "nat i"] by simp

lemma sameSuit_loop_nat:
  "sameSuit_loop column s (int m) = Inr (\<forall>k\<in>{m..<length column}. suit (column ! k) = s)"
proof (induction "length column - m" arbitrary: m)
  case 0
  then show ?case by (simp add: sameSuit_loop.simps)
next
  case (Suc d)
  then have lt: "m < length column" and d: "d = length column - Suc m"
    by simp_all
  have split: "{m..<length column} = insert m {Suc m..<length column}"
    using lt by auto
  show ?case
    using lt Suc.hyps(1) [OF d] unfolding split
    by (subst sameSuit_loop.simps) (auto simp: add.commute [of _ 1])
qed

lemma canMoveCards_Some:
  "canMoveCards (Some source) i (Some target) =
     Inr (0 \<le> i \<and> i < int (length source) \<and> validFrom source (nat i) \<and>
          (target = [] \<or>
           (faceUp (last target) \<and>
            getRankValue (rank (last target)) = getRankValue (rank (source ! nat i)) + 1)))"
proof (cases "0 \<le> i \<and> i < int (length source)")
  case False
  then show ?thesis by (auto simp: canMoveCards_def)
next
  case True
  then obtain n where n: "i = int n" "n < length source"
    by (metis nat_less_iff nonneg_int_cases of_nat_less_iff)
  show ?thesis
    using n(2) unfolding n(1) canMoveCards_def
    by (cases target rule: rev_cases)
       (auto simp: isValidSequence_nat nth_append simp flip: of_nat_diff)
qed


lemma validFrom_rank:
  assumes "validFrom column n" "n + k < length column"
  shows "getRankValue (rank (column ! (n + k))) = getRankValue (rank (column ! n)) - int k \<and>
         suit (column ! (n + k)) = suit (column ! n) \<and> faceUp (column ! (n + k))"
  using assms(2)
proof (induction k)
  case 0
  with assms(1) show ?case by (simp add: validFrom_def)
next
  case (Suc k)
  then have "adjacentOk column (n + Suc k)" "faceUp (column ! (n + Suc k))"
    using assms(1) by (simp_all add: validFrom_def)
  with Suc show ?case by (simp add: adjacentOk_def)
qed

lemma completeRunAt_iff:
  assumes "length column \<ge> 13"
  shows "completeRunAt column \<longleftrightarrow>
           getRankValue (rank (last column)) = 1 \<and>
           getRankValue (rank (column ! (length column - 13))) = 13 \<and>
           validFrom column (length column - 13) \<and>
           (\<forall>k\<in>{length column - 13..<length column}. suit (column ! k) = suit (last column))"
  (is "?L \<longleftrightarrow> ?R")
proof
  let ?n = "length column - 13"
  have ne: "column \<noteq> []" using assms by auto
  have lastc: "last column = column ! (?n + 12)"
    using assms by (simp add: last_conv_nth ne)
  {
    assume L: ?L
    from L have all: "\<forall>k\<in>{0..<13}.
        faceUp (column ! (?n + k)) \<and> suit (column ! (?n + k)) = suit (column ! ?n) \<and>
        getRankValue (rank (column ! (?n + k))) = 13 - int k"
      unfolding completeRunAt_def by (rule conjunct2)
    have at: "faceUp (column ! (?n + k)) \<and> suit (column ! (?n + k)) = suit (column ! ?n) \<and>
              getRankValue (rank (column ! (?n + k))) = 13 - int k" if "k < 13" for k
    proof -
      have "k \<in> {0..<13}" using that by simp
      with all show ?thesis by (rule bspec)
    qed
    have idx: "\<exists>k<13. j = ?n + k" if "?n \<le> j" "j < length column" for j
      using that assms by (intro exI [of _ "j - ?n"]) auto
    have v: "validFrom column ?n"
      unfolding validFrom_def adjacentOk_def
    proof (intro conjI ballI)
      fix j assume "j \<in> {?n..<length column}"
      then obtain k where "k < 13" "j = ?n + k" using idx by auto
      then show "faceUp (column ! j)" using at by simp
    next
      fix j assume j: "j \<in> {Suc ?n..<length column}"
      then obtain k where k: "k < 13" "j = ?n + k" using idx [of j] by auto
      with j have "k > 0" by auto
      then obtain k' where k': "k = Suc k'" by (cases k) auto
      with k have a: "j - 1 = ?n + k'" "k' < 13" by auto
      show "suit (column ! j) = suit (column ! (j - 1))"
        using at [OF k(1)] at [OF a(2)] k a by simp
      show "getRankValue (rank (column ! (j - 1))) - getRankValue (rank (column ! j)) = 1"
        using at [OF k(1)] at [OF a(2)] k a k' by simp
    qed
    have s: "\<forall>k\<in>{?n..<length column}. suit (column ! k) = suit (last column)"
    proof
      fix j assume "j \<in> {?n..<length column}"
      then obtain k where "k < 13" "j = ?n + k" using idx by auto
      then show "suit (column ! j) = suit (last column)"
        using at [of k] at [of 12] lastc by simp
    qed
    have r1: "getRankValue (rank (last column)) = 1"
      using at [of 12] by (simp add: lastc)
    have r13: "getRankValue (rank (column ! ?n)) = 13"
      using at [of 0] by simp
    show ?R using r1 r13 v s by (intro conjI)
  }
  {
    assume R: ?R
    then have v: "validFrom column ?n" by simp
    show ?L
      unfolding completeRunAt_def
    proof (intro conjI ballI assms)
      fix k :: nat assume "k \<in> {0..<13}"
      then have "?n + k < length column" using assms by auto
      from validFrom_rank [OF v this] R
      show "faceUp (column ! (?n + k))"
        "suit (column ! (?n + k)) = suit (column ! ?n)"
        "getRankValue (rank (column ! (?n + k))) = 13 - int k"
        by simp_all
    qed
  }
qed

lemma chk_aux:
  "(if a \<noteq> (1::int) then Inr N else if b \<noteq> (13::int) then Inr N
    else if \<not> v then Inr N else if \<not> s then Inr N else Inr F) =
   Inr (if a = 1 \<and> b = 13 \<and> v \<and> s then F else N)"
  by simp

lemma checkCompleteRun_Inr:
  "checkCompleteRun column =
     Inr (if completeRunAt column
          then \<lparr>found = True, startIndex = int (length column) - 13\<rparr>
          else notFound)"
proof (cases "length column < 13")
  case True
  then show ?thesis by (simp add: checkCompleteRun_def completeRunAt_def)
next
  case False
  then have len: "length column \<ge> 13" by simp
  then have ne: "column \<noteq> []" by auto
  from len obtain m where m: "length column = m + 13"
    by (metis add.commute le_Suc_ex)
  have i1: "int (length column) - 1 = int (m + 12)"
    and i13: "int (length column) - 13 = int m"
    and n13: "length column - 13 = m"
    by (simp_all add: m)
  have lastc: "last column = column ! (m + 12)"
    using ne by (simp add: last_conv_nth m add.commute)
  have lts: "m + 12 < length column" "m < length column" "\<not> length column < 13"
    by (simp_all add: m)
  show ?thesis
    unfolding checkCompleteRun_def completeRunAt_iff [OF len] Let_def i1 i13 n13
      isValidSequence_nat sameSuit_loop_nat nth_js_nat lastc
    by (simp only: lts if_True if_False option.case sum.case) (rule chk_aux)
qed

section \<open>Move legality (claim C2)\<close>

text \<open>
  Claim C2. For every source column, start index \<open>i\<close> and target column,
  \<open>canMoveCards\<close> returns \<open>true\<close> if and only if \<open>i\<close> is in range for the source
  column, every card from \<open>i\<close> to the end of the source is face-up with each adjacent
  pair of one suit and rank values falling by exactly 1 towards the top, and the target
  column is empty or its top card is face-up with a rank value exactly one greater than
  that of the card at index \<open>i\<close>; the suit of the target's top card plays no part. On
  two columns the function never throws.
\<close>

theorem canMoveCards_legal_iff:
  "canMoveCards (Some source) i (Some target) =
     Inr (0 \<le> i \<and> i < int (length source) \<and> validFrom source (nat i) \<and>
          (target = [] \<or>
           (faceUp (last target) \<and>
            getRankValue (rank (last target)) - getRankValue (rank (source ! nat i)) = 1)))"
  unfolding canMoveCards_Some by auto

theorem canMoveCards_legal_iff_witness:
  "canMoveCards (Some [mkCard Spades R8 False, mkCard Spades R7 True, mkCard Spades R6 True]) 1
     (Some [mkCard Hearts R8 True]) = Inr True"
proof -
  have "validFrom [mkCard Spades R8 False, mkCard Spades R7 True, mkCard Spades R6 True] 1"
    by code_simp
  then show ?thesis
    using canMoveCards_legal_iff
      [of "[mkCard Spades R8 False, mkCard Spades R7 True, mkCard Spades R6 True]" 1
          "[mkCard Hearts R8 True]"]
    by (simp add: mkCard_def getRankValue_def)
qed

section \<open>Detection of a complete run (claim C5)\<close>

text \<open>
  Claim C5, as stated, makes \<open>checkCompleteRun\<close> report a run exactly when the column
  has at least 13 cards whose last 13 are of one suit and descend from King to Ace.
  The function also requires each of the 13 cards to be face-up (through
  \<open>isValidSequence\<close>): King to Ace of spades with the King face-down is a column that
  meets the stated condition and is reported as not found.
\<close>

theorem checkCompleteRun_face_down_counterexample:
  "completeRunClaimed (spadeRun False) \<and> checkCompleteRun (spadeRun False) = Inr notFound"
  by code_simp

text \<open>
  Claim C5, amended. For every column, \<open>checkCompleteRun\<close> reports \<open>found = true\<close>
  with \<open>startIndex = length - 13\<close> if and only if the column has at least 13 cards and
  its last 13 cards are all face-up, all of one suit, and have the rank values 13 (King)
  down to 1 (Ace) in this order; otherwise it reports \<open>found = false\<close> with
  \<open>startIndex = -1\<close>. It never throws.
\<close>

theorem checkCompleteRun_found_iff:
  "checkCompleteRun column =
     Inr (if completeRunAt column
          then \<lparr>found = True, startIndex = int (length column) - 13\<rparr>
          else \<lparr>found = False, startIndex = -1\<rparr>)"
  unfolding checkCompleteRun_Inr notFound_def by simp

theorem checkCompleteRun_found_iff_witness:
  "completeRunAt (spadeRun True) \<and>
   checkCompleteRun (spadeRun True) = Inr \<lparr>found = True, startIndex = 0\<rparr>"
proof -
  have "completeRunAt (spadeRun True)" by code_simp
  then show ?thesis
    using checkCompleteRun_found_iff [of "spadeRun True"]
    by (simp add: spadeRun_def)
qed

section \<open>Run removal in closed form\<close>

lemma checkCompleteRun_found:
  "completeRunAt col \<Longrightarrow>
   checkCompleteRun col = Inr \<lparr>found = True, startIndex = int (length col) - 13\<rparr>"
  by (simp add: checkCompleteRun_Inr)

lemma checkCompleteRun_notFound:
  "\<not> completeRunAt col \<Longrightarrow> checkCompleteRun col = Inr notFound"
  by (simp add: checkCompleteRun_Inr)

lemma doubleUlp_small: "a < 9007199254740992 \<Longrightarrow> doubleUlp a = 1"
  by (subst doubleUlp.simps) simp

lemma doubleUlp_two_53: "doubleUlp 9007199254740992 = 2"
  by (subst doubleUlp.simps) (simp add: doubleUlp_small)

lemma roundDouble_exact:
  assumes "\<bar>x\<bar> \<le> 9007199254740992"
  shows "roundDouble x = x"
proof (cases "\<bar>x\<bar> < 9007199254740992")
  case True
  then have "doubleUlp \<bar>x\<bar> = 1" by (rule doubleUlp_small)
  then have "roundDouble x = sgn x * \<bar>x\<bar>"
    by (simp add: roundDouble_def Let_def)
  then show ?thesis by (simp add: mult_sgn_abs)
next
  case False
  with assms have a: "\<bar>x\<bar> = 9007199254740992" by simp
  then have "roundDouble x = sgn x * \<bar>x\<bar>"
    by (simp add: roundDouble_def Let_def doubleUlp_two_53)
  then show ?thesis by (simp add: mult_sgn_abs)
qed

lemma js_add_exact: "\<bar>x + y\<bar> \<le> 9007199254740992 \<Longrightarrow> js_add x y = x + y"
  by (simp add: js_add_def roundDouble_exact)

lemma js_sub_exact: "\<bar>x - y\<bar> \<le> 9007199254740992 \<Longrightarrow> js_sub x y = x - y"
  by (simp add: js_sub_def roundDouble_exact)

lemma addRuns_0 [simp]: "addRuns 0 r = r"
  by (simp add: addRuns_def)

lemma addScore_0 [simp]: "addScore 0 sc = sc"
  by (simp add: addScore_def)

lemma addRuns_Suc: "addRuns (Suc n) r = addRuns n (js_add r 1)"
  by (simp only: addRuns_def funpow_Suc_right o_apply)

lemma addScore_Suc: "addScore (Suc n) sc = addScore n (js_add sc 100)"
  by (simp only: addScore_def funpow_Suc_right o_apply)

lemma addRuns_exact:
  "\<bar>r\<bar> + int n \<le> 9007199254740992 \<Longrightarrow> addRuns n r = r + int n"
proof (induction n arbitrary: r)
  case 0
  then show ?case by simp
next
  case (Suc n)
  then have e: "js_add r 1 = r + 1"
    by (intro js_add_exact) simp
  from Suc.prems have "\<bar>r + 1\<bar> + int n \<le> 9007199254740992" by simp
  from Suc.IH [OF this] show ?case
    by (simp add: addRuns_Suc e)
qed

lemma addScore_exact:
  "\<bar>sc\<bar> + 100 * int n \<le> 9007199254740992 \<Longrightarrow> addScore n sc = sc + 100 * int n"
proof (induction n arbitrary: sc)
  case 0
  then show ?case by simp
next
  case (Suc n)
  then have e: "js_add sc 100 = sc + 100"
    by (intro js_add_exact) simp
  from Suc.prems have "\<bar>sc + 100\<bar> + 100 * int n \<le> 9007199254740992" by simp
  from Suc.IH [OF this] show ?case
    by (simp add: addScore_Suc e)
qed

lemma runCount_Cons:
  "runCount (c # cols) = (if completeRunAt c then Suc (runCount cols) else runCount cols)"
  by (simp add: runCount_def)

lemma runCount_le: "runCount cols \<le> length cols"
  by (simp add: runCount_def)

lemma removeCompleteRuns_loop_closed:
  "k \<le> length cols \<Longrightarrow>
   removeCompleteRuns_loop k (cols, r, sc) =
     Inr (take k cols @ map stripRun (drop k cols),
          addRuns (runCount (drop k cols)) r, addScore (runCount (drop k cols)) sc)"
proof (induction "length cols - k" arbitrary: k cols r sc)
  case 0
  then show ?case
    by (subst removeCompleteRuns_loop.simps) (simp add: runCount_def)
next
  case (Suc d)
  then have lt: "k < length cols" by simp
  then have dr: "drop k cols = cols ! k # drop (Suc k) cols"
    by (simp add: Cons_nth_drop_Suc)
  show ?case
  proof (cases "completeRunAt (cols ! k)")
    case True
    let ?c = "flipTop (take (nat (int (length (cols ! k)) - 13)) (cols ! k))"
    have d: "d = length (cols[k := ?c]) - Suc k" using Suc.hyps(2) by simp
    have le: "Suc k \<le> length (cols[k := ?c])" using lt by simp
    have n: "nat (int (length (cols ! k)) - 13) = length (cols ! k) - 13" by simp
    have "removeCompleteRuns_loop k (cols, r, sc)
            = removeCompleteRuns_loop (Suc k) (cols[k := ?c], js_add r 1, js_add sc 100)"
      using lt True by (subst removeCompleteRuns_loop.simps) (simp add: checkCompleteRun_found)
    also have "\<dots> = Inr (take (Suc k) (cols[k := ?c]) @ map stripRun (drop (Suc k) (cols[k := ?c])),
          addRuns (runCount (drop (Suc k) (cols[k := ?c]))) (js_add r 1),
          addScore (runCount (drop (Suc k) (cols[k := ?c]))) (js_add sc 100))"
      by (rule Suc.hyps(1) [OF d le])
    also have "\<dots> = Inr (take k cols @ map stripRun (drop k cols),
          addRuns (runCount (drop k cols)) r, addScore (runCount (drop k cols)) sc)"
      using lt True
      by (simp add: dr runCount_Cons addRuns_Suc addScore_Suc stripRun_def n
          take_Suc_conv_app_nth upd_conv_take_nth_drop)
    finally show ?thesis .
  next
    case False
    have d: "d = length cols - Suc k" using Suc.hyps(2) by simp
    have le: "Suc k \<le> length cols" using lt by simp
    have "removeCompleteRuns_loop k (cols, r, sc) = removeCompleteRuns_loop (Suc k) (cols, r, sc)"
      using lt False
      by (subst removeCompleteRuns_loop.simps) (simp add: checkCompleteRun_notFound notFound_def)
    also have "\<dots> = Inr (take (Suc k) cols @ map stripRun (drop (Suc k) cols),
          addRuns (runCount (drop (Suc k) cols)) r, addScore (runCount (drop (Suc k) cols)) sc)"
      by (rule Suc.hyps(1) [OF d le])
    also have "\<dots> = Inr (take k cols @ map stripRun (drop k cols),
          addRuns (runCount (drop k cols)) r, addScore (runCount (drop k cols)) sc)"
      using lt False
      by (simp add: dr runCount_Cons stripRun_def take_Suc_conv_app_nth)
    finally show ?thesis .
  qed
qed

lemma removeCompleteRuns_closed:
  "removeCompleteRuns s =
     Inr (s\<lparr>columns := map stripRun (columns s),
            completedRuns := addRuns (runCount (columns s)) (completedRuns s),
            score := addScore (runCount (columns s)) (score s)\<rparr>)"
  by (simp add: removeCompleteRuns_def removeCompleteRuns_loop_closed)

section \<open>Moves and deals in closed form\<close>

lemma flipTop_eq:
  "flipTop col =
     (if col \<noteq> [] \<and> \<not> faceUp (last col) then butlast col @ [(last col)\<lparr>faceUp := True\<rparr>]
      else col)"
proof (cases col rule: rev_cases)
  case Nil
  then show ?thesis by (simp add: flipTop_def)
next
  case (snoc ys y)
  then show ?thesis by (simp add: flipTop_def Let_def)
qed

lemma canMoveCards_True:
  assumes "canMoveCards a i b = Inr True"
  obtains source target where "a = Some source" "b = Some target"
    "0 \<le> i" "i < int (length source)" "validFrom source (nat i)"
    "target = [] \<or> (faceUp (last target) \<and>
       getRankValue (rank (last target)) = getRankValue (rank (source ! nat i)) + 1)"
proof -
  from assms have i: "0 \<le> i" by (auto simp: canMoveCards_def split: if_splits)
  from assms i obtain source where a: "a = Some source"
    by (cases a) (auto simp: canMoveCards_def)
  from assms i a have lt: "i < int (length source)"
    by (auto simp: canMoveCards_def split: if_splits)
  from i have v: "isValidSequence source i = Inr (validFrom source (nat i))"
    by (rule isValidSequence_nonneg)
  from assms i a lt v have vt: "validFrom source (nat i)"
    by (auto simp: canMoveCards_def split: if_splits)
  from assms i a lt v vt obtain target where b: "b = Some target"
    by (cases b) (auto simp: canMoveCards_def)
  from assms show thesis
    unfolding a b canMoveCards_Some
    using that [OF a b] by auto
qed

lemma nth_js_Some:
  "nth_js xs i = Some x \<longleftrightarrow> 0 \<le> i \<and> i < int (length xs) \<and> x = xs ! nat i"
  by (auto simp: nth_js_def)

lemma nth_js_None: "nth_js xs i = None \<longleftrightarrow> i < 0 \<or> int (length xs) \<le> i"
  by (auto simp: nth_js_def)

lemma moveCards_same: "moveCards s c i c = Inr s"
  by (simp add: moveCards_def)

lemma moveCards_reject:
  "canMoveCards (nth_js (columns s) src) i (nth_js (columns s) tgt) = Inr False \<Longrightarrow>
   moveCards s src i tgt = Inr s"
  by (simp add: moveCards_def)

lemma moveCards_throw:
  "src \<noteq> tgt \<Longrightarrow>
   canMoveCards (nth_js (columns s) src) i (nth_js (columns s) tgt) = Inl e \<Longrightarrow>
   moveCards s src i tgt = Inl e"
  by (simp add: moveCards_def)

lemma moveCards_accept:
  assumes ne: "src \<noteq> tgt"
    and ok: "canMoveCards (nth_js (columns s) src) i (nth_js (columns s) tgt) = Inr True"
  shows "moveCards s src i tgt = removeCompleteRuns (movedState s (nat src) (nat i) (nat tgt))"
proof -
  from ok obtain source target where
    "nth_js (columns s) src = Some source" "nth_js (columns s) tgt = Some target"
    by (rule canMoveCards_True)
  then have r: "0 \<le> src" "src < int (length (columns s))" "0 \<le> tgt" "tgt < int (length (columns s))"
    by (simp_all add: nth_js_Some)
  with ne have nn: "nat src \<noteq> nat tgt" "nat src < length (columns s)" "nat tgt < length (columns s)"
    by simp_all
  show ?thesis
    using ne ok nn
    by (simp add: moveCards_def movedState_def Let_def list_update_swap [of "nat tgt" "nat src"])
qed

lemma dealFromStock_None:
  "dealFromStock s = Inr None \<longleftrightarrow> stock s = [] \<or> (\<exists>col\<in>set (columns s). col = [])"
  by (auto simp: dealFromStock_def Let_def removeCompleteRuns_closed list_ex_iff)

lemma deal_columns:
  assumes "length cols \<le> length pile"
  shows "map (\<lambda>(col, idx). if idx < length pile
                             then col @ [(pile ! idx)\<lparr>faceUp := True\<rparr>] else col)
           (zip cols [0..<length cols])
         = map (\<lambda>k. cols ! k @ [(pile ! k)\<lparr>faceUp := True\<rparr>]) [0..<length cols]"
  using assms by (intro nth_equalityI) simp_all

lemma dealFromStock_Some:
  assumes "stock s \<noteq> []" "\<forall>col\<in>set (columns s). col \<noteq> []"
    "length (columns s) \<le> length (last (stock s))"
  shows "dealFromStock s = map_sum id Some (removeCompleteRuns (dealtState s))"
proof -
  have mid: "s\<lparr>columns := map (\<lambda>(col, idx). if idx < length (last (stock s))
                             then col @ [(last (stock s) ! idx)\<lparr>faceUp := True\<rparr>] else col)
                          (zip (columns s) [0..<length (columns s)]),
              stock := butlast (stock s), moves := js_add (moves s) 1\<rparr> = dealtState s"
    unfolding dealtState_def by (simp only: deal_columns [OF assms(3)])
  have "dealFromStock s =
          (case removeCompleteRuns (dealtState s) of Inl e \<Rightarrow> Inl e | Inr t \<Rightarrow> Inr (Some t))"
    using assms(1,2) unfolding dealFromStock_def Let_def mid
    by (simp add: list_ex_iff)
  then show ?thesis
    by (simp add: removeCompleteRuns_closed)
qed

lemma movedState_fields:
  "columns (movedState s src i tgt) =
     (columns s)[src := flipTop (take i (columns s ! src)),
                 tgt := columns s ! tgt @ drop i (columns s ! src)]"
  "stock (movedState s src i tgt) = stock s"
  "completedRuns (movedState s src i tgt) = completedRuns s"
  "score (movedState s src i tgt) = js_sub (score s) 1"
  "moves (movedState s src i tgt) = js_add (moves s) 1"
  "difficulty (movedState s src i tgt) = difficulty s"
  by (simp_all add: movedState_def)

section \<open>The effect of a move (claim C1)\<close>

text \<open>
  Claim C1, as stated, has an accepted move raise the move counter by exactly 1 and lower
  the score by exactly 1. The counters are doubles: with the move counter at \<open>2^53\<close>
  and the score at \<open>-2^53\<close>, the accepted move of the cards 7 and 6 of spades from
  column 0 onto the 8 of hearts of column 1 returns a state with both counters unchanged.
\<close>

theorem moveCards_counters_counterexample:
  "canMoveCards (nth_js (columns saturatedState) 0) 1 (nth_js (columns saturatedState) 1)
     = Inr True \<and>
   moves saturatedState = 9007199254740992 \<and>
   score saturatedState = - 9007199254740992 \<and>
   moveCards saturatedState 0 1 1 =
     Inr (saturatedState\<lparr>columns := (columns saturatedState)
            [0 := [mkCard Spades R8 True],
             1 := [mkCard Hearts R8 True, mkCard Spades R7 True, mkCard Spades R6 True]]\<rparr>)"
  by code_simp

text \<open>
  Claim C1, amended. For every state and all indices, \<open>moveCards\<close> returns the state
  it was given when source and target are the same index or when \<open>canMoveCards\<close>
  rejects. When \<open>canMoveCards\<close> accepts, the column indices and the start index are in
  range and the result is \<open>removeCompleteRuns\<close> applied to the state in which the cards
  of the source column from the start index on have been taken off and appended in order
  to the target column, the move counter is \<open>moves + 1\<close> and the score
  \<open>score - 1\<close>, each rounded to the nearest double; in the result the score has
  \<open>100\<close> added, and \<open>completedRuns\<close> has 1 added, once for each column that held a
  complete run after the move, each sum rounded likewise. Whenever the counters and what
  is added to them stay within magnitude \<open>2^53\<close>, the move counter of the result is
  exactly one higher, and the score is exactly lower by 1 and higher by 100 for each
  removed run. The new top card of the source column is turned face-up exactly when the
  column is not empty and that card is face-down (\<open>flipTop\<close>).
\<close>

theorem moveCards_behaviour:
  "(src = tgt \<longrightarrow> moveCards s src i tgt = Inr s) \<and>
   (canMoveCards (nth_js (columns s) src) i (nth_js (columns s) tgt) = Inr False \<longrightarrow>
      moveCards s src i tgt = Inr s) \<and>
   (src \<noteq> tgt \<and> canMoveCards (nth_js (columns s) src) i (nth_js (columns s) tgt) = Inr True \<longrightarrow>
      0 \<le> src \<and> src < int (length (columns s)) \<and> 0 \<le> tgt \<and> tgt < int (length (columns s)) \<and>
      0 \<le> i \<and> i < int (length (columns s ! nat src)) \<and>
      moveCards s src i tgt = removeCompleteRuns (movedState s (nat src) (nat i) (nat tgt)) \<and>
      columns (movedState s (nat src) (nat i) (nat tgt)) =
        (columns s)[nat src := flipTop (take (nat i) (columns s ! nat src)),
                    nat tgt := columns s ! nat tgt @ drop (nat i) (columns s ! nat src)] \<and>
      moves (movedState s (nat src) (nat i) (nat tgt)) = roundDouble (moves s + 1) \<and>
      score (movedState s (nat src) (nat i) (nat tgt)) = roundDouble (score s - 1) \<and>
      stock (movedState s (nat src) (nat i) (nat tgt)) = stock s \<and>
      completedRuns (movedState s (nat src) (nat i) (nat tgt)) = completedRuns s \<and>
      (\<exists>s'. moveCards s src i tgt = Inr s' \<and>
            moves s' = roundDouble (moves s + 1) \<and>
            completedRuns s' =
              addRuns (runCount (columns (movedState s (nat src) (nat i) (nat tgt))))
                (completedRuns s) \<and>
            score s' =
              addScore (runCount (columns (movedState s (nat src) (nat i) (nat tgt))))
                (roundDouble (score s - 1)) \<and>
            (\<bar>moves s + 1\<bar> \<le> 9007199254740992 \<longrightarrow> moves s' = moves s + 1) \<and>
            (\<bar>completedRuns s\<bar>
               + runsIn (columns (movedState s (nat src) (nat i) (nat tgt)))
               \<le> 9007199254740992 \<longrightarrow>
             completedRuns s' =
               completedRuns s + runsIn (columns (movedState s (nat src) (nat i) (nat tgt)))) \<and>
            (\<bar>score s\<bar> + 1
               + 100 * runsIn (columns (movedState s (nat src) (nat i) (nat tgt)))
               \<le> 9007199254740992 \<longrightarrow>
             score s' =
               score s - 1
               + 100 * runsIn (columns (movedState s (nat src) (nat i) (nat tgt)))))) \<and>
   (\<forall>col. flipTop col =
      (if col \<noteq> [] \<and> \<not> faceUp (last col)
       then butlast col @ [(last col)\<lparr>faceUp := True\<rparr>] else col))"
proof (intro conjI impI allI)
  show "moveCards s src i tgt = Inr s" if "src = tgt"
    using that by (simp add: moveCards_same)
  show "moveCards s src i tgt = Inr s"
    if "canMoveCards (nth_js (columns s) src) i (nth_js (columns s) tgt) = Inr False"
    using that by (rule moveCards_reject)
  show "flipTop col =
      (if col \<noteq> [] \<and> \<not> faceUp (last col)
       then butlast col @ [(last col)\<lparr>faceUp := True\<rparr>] else col)" for col
    by (rule flipTop_eq)
next
  assume a: "src \<noteq> tgt \<and>
    canMoveCards (nth_js (columns s) src) i (nth_js (columns s) tgt) = Inr True"
  then have ne: "src \<noteq> tgt"
    and ok: "canMoveCards (nth_js (columns s) src) i (nth_js (columns s) tgt) = Inr True"
    by simp_all
  from ok obtain source target where st:
    "nth_js (columns s) src = Some source" "nth_js (columns s) tgt = Some target"
    "0 \<le> i" "i < int (length source)"
    by (rule canMoveCards_True)
  then have src: "0 \<le> src" "src < int (length (columns s))" "source = columns s ! nat src"
    and tgt: "0 \<le> tgt" "tgt < int (length (columns s))"
    by (simp_all add: nth_js_Some)
  let ?m = "movedState s (nat src) (nat i) (nat tgt)"
  let ?n = "runCount (columns ?m)"
  show "0 \<le> src" "src < int (length (columns s))" "0 \<le> tgt" "tgt < int (length (columns s))"
    "0 \<le> i" "i < int (length (columns s ! nat src))"
    using src tgt st by simp_all
  show acc: "moveCards s src i tgt = removeCompleteRuns ?m"
    using ne ok by (rule moveCards_accept)
  show "columns ?m =
        (columns s)[nat src := flipTop (take (nat i) (columns s ! nat src)),
                    nat tgt := columns s ! nat tgt @ drop (nat i) (columns s ! nat src)]"
    "moves ?m = roundDouble (moves s + 1)"
    "score ?m = roundDouble (score s - 1)"
    "stock ?m = stock s"
    "completedRuns ?m = completedRuns s"
    by (simp_all add: movedState_fields js_add_def js_sub_def)
  define s' where "s' = ?m\<lparr>columns := map stripRun (columns ?m),
            completedRuns := addRuns ?n (completedRuns ?m),
            score := addScore ?n (score ?m)\<rparr>"
  have res: "moveCards s src i tgt = Inr s'"
    unfolding acc s'_def by (rule removeCompleteRuns_closed)
  have m1: "moves s' = roundDouble (moves s + 1)"
    by (simp add: s'_def movedState_fields js_add_def)
  have r1: "completedRuns s' = addRuns ?n (completedRuns s)"
    by (simp add: s'_def movedState_fields)
  have s1: "score s' = addScore ?n (roundDouble (score s - 1))"
    by (simp add: s'_def movedState_fields js_sub_def)
  have m2: "moves s' = moves s + 1" if "\<bar>moves s + 1\<bar> \<le> 9007199254740992"
    using that by (simp add: m1 roundDouble_exact)
  have r2: "completedRuns s' = completedRuns s + runsIn (columns ?m)"
    if "\<bar>completedRuns s\<bar> + runsIn (columns ?m) \<le> 9007199254740992"
    using that by (simp add: r1 runsIn_def addRuns_exact)
  have s2: "score s' = score s - 1 + 100 * runsIn (columns ?m)"
    if b: "\<bar>score s\<bar> + 1 + 100 * runsIn (columns ?m) \<le> 9007199254740992"
  proof -
    from b have "\<bar>score s - 1\<bar> \<le> 9007199254740992"
      by (simp add: runsIn_def)
    then have e: "roundDouble (score s - 1) = score s - 1"
      by (rule roundDouble_exact)
    from b have "\<bar>score s - 1\<bar> + 100 * int ?n \<le> 9007199254740992"
      by (simp add: runsIn_def)
    then show ?thesis
      by (simp add: s1 e addScore_exact runsIn_def)
  qed
  show "\<exists>s'. moveCards s src i tgt = Inr s' \<and>
            moves s' = roundDouble (moves s + 1) \<and>
            completedRuns s' = addRuns ?n (completedRuns s) \<and>
            score s' = addScore ?n (roundDouble (score s - 1)) \<and>
            (\<bar>moves s + 1\<bar> \<le> 9007199254740992 \<longrightarrow> moves s' = moves s + 1) \<and>
            (\<bar>completedRuns s\<bar> + runsIn (columns ?m) \<le> 9007199254740992 \<longrightarrow>
             completedRuns s' = completedRuns s + runsIn (columns ?m)) \<and>
            (\<bar>score s\<bar> + 1 + 100 * runsIn (columns ?m) \<le> 9007199254740992 \<longrightarrow>
             score s' = score s - 1 + 100 * runsIn (columns ?m))"
    using res m1 r1 s1 m2 r2 s2 by blast
qed

theorem moveCards_behaviour_witness:
  "(0::int) \<noteq> 1 \<and>
   canMoveCards (nth_js (columns exampleState) 0) 1 (nth_js (columns exampleState) 1) = Inr True \<and>
   moveCards exampleState 0 1 1 =
     Inr (exampleState\<lparr>columns := (columns exampleState)
            [0 := [mkCard Spades R8 True],
             1 := [mkCard Hearts R8 True, mkCard Spades R7 True, mkCard Spades R6 True]],
          score := 499, moves := 1\<rparr>)"
proof -
  have ok: "canMoveCards (nth_js (columns exampleState) 0) 1 (nth_js (columns exampleState) 1)
              = Inr True"
    by code_simp
  have "moveCards exampleState 0 1 1 = removeCompleteRuns (movedState exampleState 0 1 1)"
    using moveCards_behaviour [of 0 1 exampleState 1] ok by simp
  also have "\<dots> = Inr (exampleState\<lparr>columns := (columns exampleState)
            [0 := [mkCard Spades R8 True],
             1 := [mkCard Hearts R8 True, mkCard Spades R7 True, mkCard Spades R6 True]],
          score := 499, moves := 1\<rparr>)"
    by code_simp
  finally show ?thesis using ok by simp
qed

lemma dealtState_fields:
  "columns (dealtState s) =
     map (\<lambda>k. columns s ! k @ [(last (stock s) ! k)\<lparr>faceUp := True\<rparr>]) [0..<length (columns s)]"
  "stock (dealtState s) = butlast (stock s)"
  "completedRuns (dealtState s) = completedRuns s"
  "score (dealtState s) = score s"
  "moves (dealtState s) = js_add (moves s) 1"
  "difficulty (dealtState s) = difficulty s"
  by (simp_all add: dealtState_def)

section \<open>Dealing from the stock (claim C3)\<close>




section \<open>Indices out of range (claim C6)\<close>

text \<open>
  Claim C6, as stated, lets no operation throw, whatever the indices. A negative start
  index makes \<open>isValidSequence\<close> read a property of \<open>cards[-1]\<close>, which is
  undefined; a column index outside the columns makes \<open>moveCards\<close> hand an undefined
  column to \<open>canMoveCards\<close>, which reads its \<open>length\<close>. Each of the three calls
  below throws a \<open>TypeError\<close>.
\<close>

theorem engine_throws_counterexample:
  "isValidSequence [mkCard Spades R7 True] (- 1) = Inl TypeError \<and>
   moveCards exampleState 0 1 10 = Inl TypeError \<and>
   moveCards exampleState 10 0 1 = Inl TypeError"
  by code_simp

lemma canMoveCards_out_of_range:
  "i < 0 \<or> int (length source) \<le> i \<Longrightarrow> canMoveCards (Some source) i b = Inr False"
  by (auto simp: canMoveCards_def)

text \<open>
  Claim C6, amended. \<open>isValidSequence\<close> does not throw for a start index that is not
  negative (and returns \<open>true\<close> for one at or beyond the end of the column).
  \<open>canMoveCards\<close> on two columns does not throw for any integer start index and
  returns \<open>false\<close> for a start index out of range. For every state and source and
  target column indices within the state's columns, \<open>moveCards\<close> does not throw for
  any integer start index and returns the state it was given when the start index is out
  of range for the source column.
\<close>

theorem engine_no_throw_in_range:
  "(0 \<le> i \<longrightarrow> isValidSequence cards i = Inr (validFrom cards (nat i))) \<and>
   (int (length cards) \<le> i \<longrightarrow> isValidSequence cards i = Inr True) \<and>
   (\<exists>b. canMoveCards (Some source) i (Some target) = Inr b) \<and>
   (i < 0 \<or> int (length source) \<le> i \<longrightarrow> canMoveCards (Some source) i (Some target) = Inr False) \<and>
   (0 \<le> src \<and> src < int (length (columns s)) \<and> 0 \<le> tgt \<and> tgt < int (length (columns s)) \<longrightarrow>
      (\<exists>s'. moveCards s src i tgt = Inr s') \<and>
      (i < 0 \<or> int (length (columns s ! nat src)) \<le> i \<longrightarrow> moveCards s src i tgt = Inr s))"
proof (intro conjI impI)
  show "isValidSequence cards i = Inr (validFrom cards (nat i))" if "0 \<le> i"
    using that by (rule isValidSequence_nonneg)
  show "isValidSequence cards i = Inr True" if "int (length cards) \<le> i"
  proof -
    from that have "0 \<le> i" "length cards \<le> nat i" by simp_all
    then show ?thesis by (simp add: isValidSequence_nonneg validFrom_def)
  qed
  show "\<exists>b. canMoveCards (Some source) i (Some target) = Inr b"
    by (simp add: canMoveCards_Some)
  show "canMoveCards (Some source) i (Some target) = Inr False"
    if "i < 0 \<or> int (length source) \<le> i"
    using that by (rule canMoveCards_out_of_range)
next
  assume r: "0 \<le> src \<and> src < int (length (columns s)) \<and> 0 \<le> tgt \<and> tgt < int (length (columns s))"
  then have js: "nth_js (columns s) src = Some (columns s ! nat src)"
    "nth_js (columns s) tgt = Some (columns s ! nat tgt)"
    by (simp_all add: nth_js_def)
  obtain b where b: "canMoveCards (nth_js (columns s) src) i (nth_js (columns s) tgt) = Inr b"
    unfolding js by (simp add: canMoveCards_Some)
  show "\<exists>s'. moveCards s src i tgt = Inr s'"
  proof (cases "src \<noteq> tgt \<and> b")
    case True
    with b show ?thesis
      by (simp add: moveCards_accept removeCompleteRuns_closed)
  next
    case False
    with b show ?thesis
      by (auto simp: moveCards_def)
  qed
  show "moveCards s src i tgt = Inr s" if "i < 0 \<or> int (length (columns s ! nat src)) \<le> i"
    using that by (intro moveCards_reject) (simp add: js canMoveCards_out_of_range)
qed

theorem engine_no_throw_in_range_witness:
  "(0::int) \<le> 1 \<and> 1 < int (length (columns exampleState)) \<and>
   (7::int) \<ge> int (length (columns exampleState ! nat 0)) \<and>
   moveCards exampleState 0 7 1 = Inr exampleState \<and>
   isValidSequence [mkCard Spades R7 True] 1 = Inr True"
proof -
  have h: "length (columns exampleState) = 10" "length (columns exampleState ! 0) = 3"
    by (simp_all add: exampleState_def)
  show ?thesis
    using engine_no_throw_in_range [of 7 "[]" "[]" "[]" 0 exampleState 1]
      engine_no_throw_in_range [of 1 "[mkCard Spades R7 True]" "[]" "[]" 0 exampleState 1] h
    by (simp add: validFrom_def)
qed

section \<open>The pack and the shuffle\<close>

lemma foldl_counted:
  assumes step: "\<And>acc k x. f (acc, k) x = (acc @ g k x, k + m)"
  shows "foldl f (acc, c) xs
           = (acc @ concat (map (\<lambda>(n, x). g (c + n * m) x) (zip [0..<length xs] xs)),
              c + length xs * m)"
proof (induction xs arbitrary: acc c)
  case Nil
  then show ?case by simp
next
  case (Cons x xs)
  have "[0..<length (x # xs)] = 0 # map Suc [0..<length xs]"
    by (simp only: length_Cons upt_conv_Cons [OF zero_less_Suc] map_Suc_upt)
  then have z: "zip [0..<length (x # xs)] (x # xs) = (0, x) # zip (map Suc [0..<length xs]) xs"
    by simp
  have "map (\<lambda>(n, y). g (c + n * m) y) (zip (map Suc [0..<length xs]) xs)
        = map (\<lambda>(n, y). g (c + m + n * m) y) (zip [0..<length xs] xs)"
    by (simp add: zip_map1 case_prod_unfold add.assoc add.commute)
  then show ?case
    unfolding z by (simp add: step Cons.IH add.assoc)
qed

lemma createDeck_inner:
  "foldl (\<lambda>(deck, idCounter) r.
            (deck @ [\<lparr>id_card = ''card-'' @ string_of_nat idCounter @ ''-''
                                 @ string_of_Suit s @ ''-'' @ string_of_Rank r,
                      suit = s, rank = r, faceUp = False\<rparr>],
             idCounter + 1))
         (deck, c) rs
   = (deck @ map (\<lambda>(n, r). deckCard (c + n) s r) (zip [0..<length rs] rs), c + length rs)"
proof -
  have "foldl (\<lambda>(deck, idCounter) r.
            (deck @ [\<lparr>id_card = ''card-'' @ string_of_nat idCounter @ ''-''
                                 @ string_of_Suit s @ ''-'' @ string_of_Rank r,
                      suit = s, rank = r, faceUp = False\<rparr>],
             idCounter + 1))
         (deck, c) rs
    = (deck @ concat (map (\<lambda>(n, r). [deckCard (c + n * 1) s r]) (zip [0..<length rs] rs)),
       c + length rs * 1)"
    by (rule foldl_counted) (simp add: deckCard_def)
  also have "concat (map (\<lambda>(n, r). [deckCard (c + n * 1) s r]) (zip [0..<length rs] rs))
             = map (\<lambda>(n, r). deckCard (c + n) s r) (zip [0..<length rs] rs)"
    by (simp add: case_prod_unfold concat_map_singleton)
  finally show ?thesis by simp
qed

lemma createDeck_closed:
  "createDeck suits =
     concat (map (\<lambda>(n, s). map (\<lambda>(k, r). deckCard (n * 13 + k) s r) (zip [0..<13] RANKS))
               (zip [0..<length suits] suits))"
proof -
  have len: "length RANKS = 13" by (simp add: RANKS_def)
  define outer where "outer = (\<lambda>(deck :: Card list, idCounter :: nat) s.
            foldl (\<lambda>(deck, idCounter) r.
                     (deck @ [\<lparr>id_card = ''card-'' @ string_of_nat idCounter @ ''-''
                                          @ string_of_Suit s @ ''-'' @ string_of_Rank r,
                               suit = s, rank = r, faceUp = False\<rparr>],
                      idCounter + 1))
                  (deck, idCounter) RANKS)"
  define G where "G = (\<lambda>k s. map (\<lambda>(n, r). deckCard (k + n) s r) (zip [0..<13] RANKS))"
  have step: "outer (acc, k) s = (acc @ G k s, k + 13)" for acc k s
    by (simp only: outer_def G_def prod.case createDeck_inner len)
  have "createDeck suits = fst (foldl outer ([], 0) suits)"
    by (simp only: createDeck_def outer_def)
  also have "\<dots> = concat (map (\<lambda>(n, s). G (0 + n * 13) s) (zip [0..<length suits] suits))"
    by (simp add: foldl_counted [of outer G 13, OF step])
  finally show ?thesis
    by (simp add: G_def)
qed

lemma product_concat: "List.product xs ys = concat (map (\<lambda>x. map (Pair x) ys) xs)"
  by (induction xs) simp_all

lemma map_snd_zip_fun:
  "length ys = length xs \<Longrightarrow> map (\<lambda>p. h (snd p)) (zip ys xs) = map h xs"
proof -
  assume "length ys = length xs"
  then have "map snd (zip ys xs) = xs"
    by (rule map_snd_zip)
  then have "map h (map snd (zip ys xs)) = map h xs"
    by simp
  then show ?thesis
    by (simp add: comp_def)
qed

lemma map_fst_zip_fun:
  "length xs = length ys \<Longrightarrow> map (\<lambda>p. h (fst p)) (zip xs ys) = map h xs"
proof -
  assume "length xs = length ys"
  then have "map fst (zip xs ys) = xs"
    by (rule map_fst_zip)
  then have "map h (map fst (zip xs ys)) = map h xs"
    by simp
  then show ?thesis
    by (simp add: comp_def)
qed

lemma createDeck_suit_rank:
  "map (\<lambda>c. (suit c, rank c)) (createDeck suits) = List.product suits RANKS"
proof -
  have r: "map (\<lambda>p. h (snd p)) (zip [0..<13] RANKS) = map h RANKS" for h :: "Rank \<Rightarrow> Suit \<times> Rank"
    by (rule map_snd_zip_fun) (simp add: RANKS_def)
  have "map (\<lambda>c. (suit c, rank c)) (createDeck suits)
        = concat (map (\<lambda>p. map (Pair (snd p)) RANKS) (zip [0..<length suits] suits))"
    unfolding createDeck_closed map_concat
    by (simp add: comp_def case_prod_unfold deckCard_def r)
  also have "\<dots> = concat (map (\<lambda>s. map (Pair s) RANKS) suits)"
    by (subst map_snd_zip_fun) simp_all
  also have "\<dots> = List.product suits RANKS"
    by (simp add: product_concat)
  finally show ?thesis .
qed

lemma length_createDeck: "length (createDeck suits) = length suits * 13"
proof -
  have "length (createDeck suits) = length (map (\<lambda>c. (suit c, rank c)) (createDeck suits))"
    by simp
  also have "\<dots> = length suits * 13"
    unfolding createDeck_suit_rank by (simp add: length_product RANKS_def)
  finally show ?thesis .
qed

lemma createDeck_face_down: "c \<in> set (createDeck suits) \<Longrightarrow> \<not> faceUp c"
  by (auto simp: createDeck_closed deckCard_def)

lemma foldl_append_concat: "foldl (\<lambda>acc i. acc @ g i) a xs = a @ concat (map g xs)"
  by (induction xs arbitrary: a) simp_all

lemma pack_closed:
  "pack suits =
     concat (map (\<lambda>i. map (packCard i) (zip (createDeck suits) [0..<length (createDeck suits)]))
               [0..<8 div length suits])"
  unfolding pack_def Let_def packCard_def
  by (simp add: foldl_append_concat)

lemma length_pack: "length (pack suits) = 8 div length suits * (length suits * 13)"
  unfolding pack_closed
  by (simp add: length_concat comp_def length_createDeck sum_list_triv)

lemma pack_face_down: "c \<in> set (pack suits) \<Longrightarrow> \<not> faceUp c"
  unfolding pack_closed
  by (auto simp: packCard_def dest!: set_zip_leftD createDeck_face_down)

lemma pack_suit_rank:
  "map (\<lambda>c. (suit c, rank c)) (pack suits)
     = concat (replicate (8 div length suits) (List.product suits RANKS))"
proof -
  have "map ((\<lambda>c. (suit c, rank c)) \<circ> packCard i) (zip (createDeck suits) [0..<length (createDeck suits)])
        = List.product suits RANKS" for i
  proof -
    have "map ((\<lambda>c. (suit c, rank c)) \<circ> packCard i) (zip (createDeck suits) [0..<length (createDeck suits)])
          = map (\<lambda>p. (suit (fst p), rank (fst p))) (zip (createDeck suits) [0..<length (createDeck suits)])"
      by (simp add: packCard_def case_prod_unfold comp_def)
    also have "\<dots> = map (\<lambda>c. (suit c, rank c)) (createDeck suits)"
      by (rule map_fst_zip_fun) simp
    finally show ?thesis by (simp add: createDeck_suit_rank)
  qed
  then show ?thesis
    unfolding pack_closed
    by (simp add: map_concat comp_def map_replicate_const)
qed

lemma length_suitsOf: "length (suitsOf d) = 1 \<or> length (suitsOf d) = 2 \<or> length (suitsOf d) = 4"
  by (simp add: suitsOf_def)

lemma length_pack_suitsOf: "length (pack (suitsOf d)) = 104"
  using length_suitsOf [of d] by (auto simp: length_pack)

lemma mset_shuffle_loop: "i < length arr \<Longrightarrow> mset (shuffle_loop rnd i arr) = mset arr"
proof (induction i arbitrary: arr)
  case 0
  then show ?case by simp
next
  case (Suc i)
  let ?j = "rnd (Suc i) mod (Suc i + 1)"
  have "?j < Suc i + 1" by (rule mod_less_divisor) simp
  with Suc.prems have j: "?j < length arr" by linarith
  have "mset (arr[Suc i := arr ! ?j, ?j := arr ! Suc i]) = mset arr"
    using Suc.prems j by (simp add: mset_swap)
  moreover have "i < length (arr[Suc i := arr ! ?j, ?j := arr ! Suc i])"
    using Suc.prems by simp
  ultimately show ?case
    using Suc.IH [of "arr[Suc i := arr ! ?j, ?j := arr ! Suc i]"] by (simp add: Let_def)
qed

lemma mset_shuffle: "mset (shuffle rnd xs) = mset xs"
proof (cases xs)
  case Nil
  then show ?thesis by (simp add: shuffle_def)
next
  case (Cons a list)
  then show ?thesis
    unfolding shuffle_def by (intro mset_shuffle_loop) simp
qed

lemma length_shuffle: "length (shuffle rnd xs) = length xs"
  by (metis mset_shuffle size_mset)

lemma set_shuffle: "set (shuffle rnd xs) = set xs"
  by (metis mset_shuffle set_mset_mset)

section \<open>The initial deal in closed form\<close>

lemma upt_0_5: "[0..<5] = [0, 1, 2, 3, 4]"
  by code_simp

lemma upt_0_6: "[0..<6] = [0, 1, 2, 3, 4, 5]"
  by code_simp

lemma upt_0_10: "[0..<10] = [0, 1, 2, 3, 4, 5, 6, 7, 8, 9]"
  by code_simp

lemma replicate_10: "replicate 10 x = [x, x, x, x, x, x, x, x, x, x]"
  by (simp add: numeral_eq_Suc)

lemma dealColumns_closed:
  "dealColumns xs =
     ([[xs ! 0, xs ! 1, xs ! 2, xs ! 3, xs ! 4, (xs ! 5)\<lparr>faceUp := True\<rparr>],
       [xs ! 6, xs ! 7, xs ! 8, xs ! 9, xs ! 10, (xs ! 11)\<lparr>faceUp := True\<rparr>],
       [xs ! 12, xs ! 13, xs ! 14, xs ! 15, xs ! 16, (xs ! 17)\<lparr>faceUp := True\<rparr>],
       [xs ! 18, xs ! 19, xs ! 20, xs ! 21, xs ! 22, (xs ! 23)\<lparr>faceUp := True\<rparr>],
       [xs ! 24, xs ! 25, xs ! 26, xs ! 27, (xs ! 28)\<lparr>faceUp := True\<rparr>],
       [xs ! 29, xs ! 30, xs ! 31, xs ! 32, (xs ! 33)\<lparr>faceUp := True\<rparr>],
       [xs ! 34, xs ! 35, xs ! 36, xs ! 37, (xs ! 38)\<lparr>faceUp := True\<rparr>],
       [xs ! 39, xs ! 40, xs ! 41, xs ! 42, (xs ! 43)\<lparr>faceUp := True\<rparr>],
       [xs ! 44, xs ! 45, xs ! 46, xs ! 47, (xs ! 48)\<lparr>faceUp := True\<rparr>],
       [xs ! 49, xs ! 50, xs ! 51, xs ! 52, (xs ! 53)\<lparr>faceUp := True\<rparr>]], 54)"
  unfolding dealColumns_def upt_0_10 replicate_10 Let_def
  by (simp add: upt_0_6 upt_0_5) (simp add: eval_nat_numeral)

lemma fillPile_closed:
  "fillPile xs i (pile, c) = (pile @ take (10 - i) (drop c xs), c + min (10 - i) (length xs - c))"
proof (induction xs i "(pile, c)" arbitrary: pile c rule: fillPile.induct)
  case (1 allCards i pile cardIdx)
  show ?case
  proof (cases "i < 10 \<and> cardIdx < length allCards")
    case True
    then have t: "take (10 - i) (drop cardIdx allCards)
                  = allCards ! cardIdx # take (10 - (i + 1)) (drop (cardIdx + 1) allCards)"
    proof -
      from True obtain m where m: "10 - i = Suc m" "10 - (i + 1) = m"
        by (cases "10 - i") auto
      from True show ?thesis
        unfolding m by (simp add: Cons_nth_drop_Suc [symmetric])
    qed
    from True have "fillPile allCards i (pile, cardIdx)
                   = fillPile allCards (i + 1) (pile @ [allCards ! cardIdx], cardIdx + 1)"
      by (subst fillPile.simps) simp
    with "1.hyps" [OF True] True show ?thesis
      by (auto simp: t min_def)
  next
    case False
    then show ?thesis
      by (subst fillPile.simps) auto
  qed
qed

lemma dealStock_step:
  "c < length xs \<Longrightarrow>
   dealStock xs (piles, c)
     = dealStock xs (piles @ [take 10 (drop c xs)], c + min 10 (length xs - c))"
  by (subst dealStock.simps) (simp add: fillPile_closed)

lemma dealStock_done: "\<not> c < length xs \<Longrightarrow> dealStock xs (piles, c) = piles"
  by (subst dealStock.simps) simp

lemma dealStock_104:
  assumes "length xs = 104"
  shows "dealStock xs ([], 54)
           = [take 10 (drop 54 xs), take 10 (drop 64 xs), take 10 (drop 74 xs),
              take 10 (drop 84 xs), take 10 (drop 94 xs)]"
proof -
  have "dealStock xs ([], 54) = dealStock xs ([take 10 (drop 54 xs)], 64)"
    using assms by (subst dealStock_step) simp_all
  also have "\<dots> = dealStock xs ([take 10 (drop 54 xs), take 10 (drop 64 xs)], 74)"
    using assms by (subst dealStock_step) simp_all
  also have "\<dots> = dealStock xs ([take 10 (drop 54 xs), take 10 (drop 64 xs),
                                     take 10 (drop 74 xs)], 84)"
    using assms by (subst dealStock_step) simp_all
  also have "\<dots> = dealStock xs ([take 10 (drop 54 xs), take 10 (drop 64 xs),
                                     take 10 (drop 74 xs), take 10 (drop 84 xs)], 94)"
    using assms by (subst dealStock_step) simp_all
  also have "\<dots> = dealStock xs ([take 10 (drop 54 xs), take 10 (drop 64 xs),
                                     take 10 (drop 74 xs), take 10 (drop 84 xs),
                                     take 10 (drop 94 xs)], 104)"
    using assms by (subst dealStock_step) simp_all
  also have "\<dots> = [take 10 (drop 54 xs), take 10 (drop 64 xs), take 10 (drop 74 xs),
                      take 10 (drop 84 xs), take 10 (drop 94 xs)]"
    using assms by (subst dealStock_done) simp_all
  finally show ?thesis .
qed

lemma createGame_closed:
  "createGame rnd d =
     \<lparr>columns = fst (dealColumns (shuffle rnd (pack (suitsOf d)))),
      stock = [take 10 (drop 54 (shuffle rnd (pack (suitsOf d)))),
               take 10 (drop 64 (shuffle rnd (pack (suitsOf d)))),
               take 10 (drop 74 (shuffle rnd (pack (suitsOf d)))),
               take 10 (drop 84 (shuffle rnd (pack (suitsOf d)))),
               take 10 (drop 94 (shuffle rnd (pack (suitsOf d))))],
      completedRuns = 0, score = 500, moves = 0, difficulty = d\<rparr>"
proof -
  have len: "length (shuffle rnd (pack (suitsOf d))) = 104"
    by (simp add: length_shuffle length_pack_suitsOf)
  have "snd (dealColumns (shuffle rnd (pack (suitsOf d)))) = 54"
    by (simp add: dealColumns_closed)
  then show ?thesis
    unfolding createGame_def Let_def
    by (simp add: case_prod_unfold dealStock_104 [OF len])
qed

lemma take_5: "5 \<le> length ys \<Longrightarrow> take 5 ys = [ys ! 0, ys ! 1, ys ! 2, ys ! 3, ys ! 4]"
  by (auto simp: eval_nat_numeral Suc_le_length_iff)

lemma take_6: "6 \<le> length ys \<Longrightarrow> take 6 ys = [ys ! 0, ys ! 1, ys ! 2, ys ! 3, ys ! 4, ys ! 5]"
  by (auto simp: eval_nat_numeral Suc_le_length_iff)

lemma take_drop_5:
  "c + 5 \<le> length xs \<Longrightarrow>
   take 5 (drop c xs) = [xs ! c, xs ! (c + 1), xs ! (c + 2), xs ! (c + 3), xs ! (c + 4)]"
  by (simp add: take_5)

lemma take_drop_6:
  "c + 6 \<le> length xs \<Longrightarrow>
   take 6 (drop c xs) = [xs ! c, xs ! (c + 1), xs ! (c + 2), xs ! (c + 3), xs ! (c + 4), xs ! (c + 5)]"
  by (simp add: take_6)

lemma take_54_split:
  "take 54 xs =
     take 6 (drop 0 xs) @ take 6 (drop 6 xs) @ take 6 (drop 12 xs) @ take 6 (drop 18 xs) @
     take 5 (drop 24 xs) @ take 5 (drop 29 xs) @ take 5 (drop 34 xs) @ take 5 (drop 39 xs) @
     take 5 (drop 44 xs) @ take 5 (drop 49 xs)"
proof -
  have split: "take (a + b) (drop n xs) = take a (drop n xs) @ take b (drop (n + a) xs)" for a b n
    by (simp add: take_add add.commute)
  show ?thesis
    using split [of 6 48 0] split [of 6 42 6] split [of 6 36 12] split [of 6 30 18] split [of 5 25 24] split [of 5 20 29] split [of 5 15 34] split [of 5 10 39] split [of 5 5 44]
    by simp
qed

lemma dealColumns_suit_rank:
  assumes "54 \<le> length xs"
  shows "map (\<lambda>c. (suit c, rank c)) (concat (fst (dealColumns xs)))
           = map (\<lambda>c. (suit c, rank c)) (take 54 xs)"
  using assms
    take_6 [of xs] take_drop_6 [of 6 xs] take_drop_6 [of 12 xs] take_drop_6 [of 18 xs]
    take_drop_5 [of 24 xs] take_drop_5 [of 29 xs] take_drop_5 [of 34 xs] take_drop_5 [of 39 xs]
    take_drop_5 [of 44 xs] take_drop_5 [of 49 xs]
  unfolding take_54_split dealColumns_closed by simp

lemma stock_piles_concat:
  assumes "length xs = 104"
  shows "concat [take 10 (drop 54 xs), take 10 (drop 64 xs), take 10 (drop 74 xs),
                 take 10 (drop 84 xs), take 10 (drop 94 xs)] = drop 54 xs"
proof -
  have a: "take 10 (drop n xs) @ drop (n + 10) xs = drop n xs" for n
    by (metis add.commute append_take_drop_id drop_drop)
  have "drop 104 xs = []" using assms by simp
  then have "take 10 (drop 94 xs) = drop 94 xs"
    using a [of 94] by simp
  then show ?thesis
    using a [of 54] a [of 64] a [of 74] a [of 84] by simp
qed

lemma shuffled_pack:
  fixes rnd d
  defines "xs \<equiv> shuffle rnd (pack (suitsOf d))"
  shows "length xs = 104"
    and "\<And>k. k < 104 \<Longrightarrow> \<not> faceUp (xs ! k)"
    and "\<And>c. c \<in> set xs \<Longrightarrow> \<not> faceUp c"
    and "mset (map (\<lambda>c. (suit c, rank c)) xs)
           = mset (concat (replicate (8 div length (suitsOf d)) (List.product (suitsOf d) RANKS)))"
proof -
  show len: "length xs = 104"
    by (simp add: xs_def length_shuffle length_pack_suitsOf)
  show fd: "\<not> faceUp c" if "c \<in> set xs" for c
    using that by (simp add: xs_def set_shuffle pack_face_down)
  show "\<not> faceUp (xs ! k)" if "k < 104" for k
    using that len by (intro fd) simp
  have "mset (map (\<lambda>c. (suit c, rank c)) xs) = image_mset (\<lambda>c. (suit c, rank c)) (mset xs)"
    by simp
  also have "\<dots> = image_mset (\<lambda>c. (suit c, rank c)) (mset (pack (suitsOf d)))"
    by (simp add: xs_def mset_shuffle)
  also have "\<dots> = mset (map (\<lambda>c. (suit c, rank c)) (pack (suitsOf d)))"
    by simp
  finally show "mset (map (\<lambda>c. (suit c, rank c)) xs)
           = mset (concat (replicate (8 div length (suitsOf d)) (List.product (suitsOf d) RANKS)))"
    by (simp only: pack_suit_rank)
qed

lemma createGame_columns:
  "map length (columns (createGame rnd d)) = [6, 6, 6, 6, 5, 5, 5, 5, 5, 5]"
  "\<forall>col\<in>set (columns (createGame rnd d)).
      col \<noteq> [] \<and> faceUp (last col) \<and> (\<forall>c\<in>set (butlast col). \<not> faceUp c)"
  using shuffled_pack(2) [of _ rnd d]
  by (simp_all add: createGame_closed dealColumns_closed)

lemma createGame_stock:
  "map length (stock (createGame rnd d)) = [10, 10, 10, 10, 10]"
  "\<forall>pile\<in>set (stock (createGame rnd d)). \<forall>c\<in>set pile. \<not> faceUp c"
proof -
  show "map length (stock (createGame rnd d)) = [10, 10, 10, 10, 10]"
    by (simp add: createGame_closed shuffled_pack(1))
  show "\<forall>pile\<in>set (stock (createGame rnd d)). \<forall>c\<in>set pile. \<not> faceUp c"
    by (auto simp: createGame_closed dest!: in_set_takeD in_set_dropD shuffled_pack(3))
qed

lemma createGame_cards:
  "mset (map (\<lambda>c. (suit c, rank c)) (cardsOf (createGame rnd d)))
     = mset (concat (replicate (8 div length (suitsOf d)) (List.product (suitsOf d) RANKS)))"
proof -
  let ?xs = "shuffle rnd (pack (suitsOf d))"
  have len: "length ?xs = 104" by (rule shuffled_pack(1))
  then have le: "54 \<le> length ?xs" by simp
  have "map (\<lambda>c. (suit c, rank c)) (cardsOf (createGame rnd d))
        = map (\<lambda>c. (suit c, rank c)) (take 54 ?xs) @ map (\<lambda>c. (suit c, rank c)) (drop 54 ?xs)"
    unfolding cardsOf_def createGame_closed
    using dealColumns_suit_rank [OF le] stock_piles_concat [OF len]
    by simp
  also have "\<dots> = map (\<lambda>c. (suit c, rank c)) ?xs"
    by (simp flip: map_append)
  finally show ?thesis
    by (simp only: shuffled_pack(4))
qed

lemma createGame_cardCount: "cardCount (createGame rnd d) = 104"
proof -
  have "length (cardsOf (createGame rnd d))
        = sum_list (map length (columns (createGame rnd d)))
          + sum_list (map length (stock (createGame rnd d)))"
    by (simp add: cardsOf_def length_concat)
  then show ?thesis
    by (simp add: cardCount_def createGame_columns(1) createGame_stock(1))
qed

section \<open>The initial state (claim C7)\<close>

text \<open>
  Claim C7. For every difficulty among 1, 2 and 4 and every outcome of the shuffle, the
  state \<open>createGame\<close> returns has four columns of 6 cards followed by six columns of
  5 cards; in each column the top card is face-up and every other card face-down; the
  stock has 5 piles of 10 cards, all face-down; \<open>completedRuns\<close> is 0, the score 500
  and the move counter 0; the state holds 104 cards, and they are, by suit and rank,
  \<open>floor(8 / numSuits)\<close> copies of the 13 ranks of each of the \<open>numSuits\<close> suits.
\<close>

theorem createGame_initial_state:
  assumes "d \<in> {1, 2, 4}"
  shows "map length (columns (createGame rnd d)) = [6, 6, 6, 6, 5, 5, 5, 5, 5, 5] \<and>
         (\<forall>col\<in>set (columns (createGame rnd d)).
            col \<noteq> [] \<and> faceUp (last col) \<and> (\<forall>c\<in>set (butlast col). \<not> faceUp c)) \<and>
         map length (stock (createGame rnd d)) = [10, 10, 10, 10, 10] \<and>
         (\<forall>pile\<in>set (stock (createGame rnd d)). \<forall>c\<in>set pile. \<not> faceUp c) \<and>
         completedRuns (createGame rnd d) = 0 \<and>
         score (createGame rnd d) = 500 \<and>
         moves (createGame rnd d) = 0 \<and>
         difficulty (createGame rnd d) = d \<and>
         cardCount (createGame rnd d) = 104 \<and>
         int (length (suitsOf d)) = d \<and>
         mset (map (\<lambda>c. (suit c, rank c)) (cardsOf (createGame rnd d)))
           = mset (concat (replicate (8 div nat d) (List.product (suitsOf d) RANKS)))"
proof -
  from assms have n: "int (length (suitsOf d)) = d" "length (suitsOf d) = nat d"
    by (auto simp: suitsOf_def)
  show ?thesis
    using createGame_columns [of rnd d] createGame_stock [of rnd d]
      createGame_cards [of rnd d] createGame_cardCount [of rnd d] n
    by (simp add: createGame_closed)
qed

theorem createGame_initial_state_witness:
  "(1::int) \<in> {1, 2, 4} \<and>
   map length (columns (createGame (\<lambda>i. 0) 1)) = [6, 6, 6, 6, 5, 5, 5, 5, 5, 5] \<and>
   map length (stock (createGame (\<lambda>i. 0) 1)) = [10, 10, 10, 10, 10] \<and>
   cardCount (createGame (\<lambda>i. 0) 1) = 104"
  using createGame_initial_state [of 1 "\<lambda>i. 0"] by simp

section \<open>Columns: face-up contiguity and buried runs\<close>

lemma faceUpContiguousD:
  "faceUpContiguous col \<Longrightarrow> i \<le> j \<Longrightarrow> j < length col \<Longrightarrow> faceUp (col ! i) \<Longrightarrow> faceUp (col ! j)"
  by (auto simp: faceUpContiguous_def)

lemma faceUpContiguousI:
  "(\<And>i j. i \<le> j \<Longrightarrow> j < length col \<Longrightarrow> faceUp (col ! i) \<Longrightarrow> faceUp (col ! j))
   \<Longrightarrow> faceUpContiguous col"
  by (auto simp: faceUpContiguous_def)

lemma completeRunAt_length: "completeRunAt col \<Longrightarrow> 13 \<le> length col"
  by (simp add: completeRunAt_def)

lemma completeRunAt_nth:
  assumes "completeRunAt col" "k < 13"
  shows "faceUp (col ! (length col - 13 + k))"
    and "getRankValue (rank (col ! (length col - 13 + k))) = 13 - int k"
    and "suit (col ! (length col - 13 + k)) = suit (col ! (length col - 13))"
proof -
  from assms(1) have all: "\<forall>k\<in>{0..<13}.
        faceUp (col ! (length col - 13 + k)) \<and>
        suit (col ! (length col - 13 + k)) = suit (col ! (length col - 13)) \<and>
        getRankValue (rank (col ! (length col - 13 + k))) = 13 - int k"
    unfolding completeRunAt_def by (rule conjunct2)
  have "k \<in> {0..<13}" using assms(2) by simp
  with all have "faceUp (col ! (length col - 13 + k)) \<and>
        suit (col ! (length col - 13 + k)) = suit (col ! (length col - 13)) \<and>
        getRankValue (rank (col ! (length col - 13 + k))) = 13 - int k"
    by (rule bspec)
  then show "faceUp (col ! (length col - 13 + k))"
    and "getRankValue (rank (col ! (length col - 13 + k))) = 13 - int k"
    and "suit (col ! (length col - 13 + k)) = suit (col ! (length col - 13))"
    by simp_all
qed

lemma completeRunAt_last_rank:
  assumes "completeRunAt col"
  shows "getRankValue (rank (col ! (length col - 1))) = 1"
proof -
  from assms have len: "13 \<le> length col" by (rule completeRunAt_length)
  then have "length col - 13 + 12 = length col - 1" by simp
  with completeRunAt_nth(2) [OF assms, of 12] show ?thesis by simp
qed

lemma completeRunAt_below_top_faceUp:
  assumes "completeRunAt col"
  shows "faceUp (col ! (length col - 2))"
proof -
  from assms have len: "13 \<le> length col" by (rule completeRunAt_length)
  then have "length col - 13 + 11 = length col - 2" by simp
  with completeRunAt_nth(1) [OF assms, of 11] show ?thesis by simp
qed

lemma getRankValue_pos: "1 \<le> getRankValue r"
  by (cases r) (simp_all add: getRankValue_def)

lemma length_flipTop [simp]: "length (flipTop col) = length col"
  by (simp add: flipTop_def Let_def)

lemma flipTop_nth_below: "k < length col - 1 \<Longrightarrow> flipTop col ! k = col ! k"
  by (simp add: flipTop_def Let_def)

lemma flipTop_nth_faceUp: "k < length col \<Longrightarrow> faceUp (col ! k) \<Longrightarrow> faceUp (flipTop col ! k)"
  by (auto simp: flipTop_def Let_def nth_list_update)

lemma flipTop_top_faceUp: "col \<noteq> [] \<Longrightarrow> faceUp (flipTop col ! (length col - 1))"
  by (auto simp: flipTop_def Let_def)

lemma take_flipTop: "n < length col \<Longrightarrow> take n (flipTop col) = take n col"
  by (simp add: flipTop_def Let_def)

lemma flipTop_id: "col = [] \<or> faceUp (last col) \<Longrightarrow> flipTop col = col"
  by (auto simp: flipTop_eq)

lemma faceUpContiguous_flipTop:
  assumes "faceUpContiguous col"
  shows "faceUpContiguous (flipTop col)"
proof (rule faceUpContiguousI)
  fix i j assume ij: "i \<le> j" "j < length (flipTop col)" "faceUp (flipTop col ! i)"
  then have j: "j < length col" by simp
  show "faceUp (flipTop col ! j)"
  proof (cases "j = length col - 1")
    case True
    from j have "col \<noteq> []" by auto
    then have "faceUp (flipTop col ! (length col - 1))" by (rule flipTop_top_faceUp)
    with True show ?thesis by simp
  next
    case False
    with ij j have "i < length col - 1" "j < length col - 1" by simp_all
    with ij assms j show ?thesis
      by (simp add: flipTop_nth_below) (metis faceUpContiguousD)
  qed
qed

lemma faceUpContiguous_take:
  assumes "faceUpContiguous col"
  shows "faceUpContiguous (take n col)"
proof (rule faceUpContiguousI)
  fix i j assume "i \<le> j" "j < length (take n col)" "faceUp (take n col ! i)"
  then show "faceUp (take n col ! j)"
    using faceUpContiguousD [OF assms, of i j] by simp
qed

lemma completeRunAt_flipTop:
  assumes c: "faceUpContiguous col" and r: "completeRunAt (flipTop col)"
  shows "flipTop col = col"
proof -
  from r have len: "13 \<le> length col"
    using completeRunAt_length by fastforce
  have e: "flipTop col ! (length col - 2) = col ! (length col - 2)"
    using len by (intro flipTop_nth_below) simp
  have "faceUp (flipTop col ! (length col - 2))"
    using completeRunAt_below_top_faceUp [OF r] by simp
  then have f: "faceUp (col ! (length col - 2))"
    unfolding e .
  have "length col - 2 \<le> length col - 1" "length col - 1 < length col"
    using len by simp_all
  from faceUpContiguousD [OF c this f] have "faceUp (col ! (length col - 1))" .
  moreover from len have "col \<noteq> []" by auto
  ultimately have "faceUp (last col)"
    by (simp add: last_conv_nth)
  then show ?thesis by (simp add: flipTop_id)
qed

lemma noBuriedRun_flipTop:
  assumes "faceUpContiguous col" "noBuriedRun col"
  shows "noBuriedRun (flipTop col)"
  unfolding noBuriedRun_def
proof
  fix n assume "n \<in> {0..length (flipTop col)}"
  then have n: "n \<le> length col" by simp
  show "\<not> completeRunAt (take n (flipTop col))"
  proof (cases "n < length col")
    case True
    with assms(2) show ?thesis
      by (simp add: take_flipTop noBuriedRun_def)
  next
    case False
    with n have "take n (flipTop col) = flipTop col" by simp
    moreover have "\<not> completeRunAt col"
      using assms(2) by (auto simp: noBuriedRun_def dest: bspec [of _ _ "length col"])
    ultimately show ?thesis
      using completeRunAt_flipTop [OF assms(1)] by auto
  qed
qed

lemma noBuriedRun_take:
  assumes "noBuriedRunBelow col \<or> noBuriedRun col" "n < length col"
  shows "noBuriedRun (take n col)"
  unfolding noBuriedRun_def
proof
  fix m assume "m \<in> {0..length (take n col)}"
  with assms(2) have m: "m \<le> n" "m < length col" by simp_all
  then have "take m (take n col) = take m col" by (simp add: min_def)
  moreover have "\<not> completeRunAt (take m col)"
    using assms(1) m by (auto simp: noBuriedRun_def noBuriedRunBelow_def)
  ultimately show "\<not> completeRunAt (take m (take n col))" by simp
qed

lemma columnInv_imp_Pre: "columnInv col \<Longrightarrow> columnPre col"
  by (auto simp: columnInv_def columnPre_def noBuriedRun_def noBuriedRunBelow_def)

lemma columnInv_not_complete: "columnInv col \<Longrightarrow> \<not> completeRunAt col"
  by (auto simp: columnInv_def noBuriedRun_def dest: bspec [of _ _ "length col"])

lemma columnInv_flipTop_take:
  assumes "columnPre col" "n < length col"
  shows "columnInv (flipTop (take n col))"
  unfolding columnInv_def
proof
  have c: "faceUpContiguous (take n col)"
    using assms(1) by (simp add: columnPre_def faceUpContiguous_take)
  then show "faceUpContiguous (flipTop (take n col))"
    by (rule faceUpContiguous_flipTop)
  have "noBuriedRun (take n col)"
    using assms by (intro noBuriedRun_take) (simp_all add: columnPre_def)
  with c show "noBuriedRun (flipTop (take n col))"
    by (rule noBuriedRun_flipTop)
qed

lemma columnInv_stripRun:
  assumes "columnPre col"
  shows "columnInv (stripRun col)"
proof (cases "completeRunAt col")
  case True
  then have "13 \<le> length col" by (rule completeRunAt_length)
  then have "length col - 13 < length col" by simp
  with assms True show ?thesis
    by (simp add: stripRun_def columnInv_flipTop_take)
next
  case False
  with assms show ?thesis
    by (auto simp: stripRun_def columnInv_def columnPre_def noBuriedRun_def noBuriedRunBelow_def
        le_less)
qed

lemma stripRun_not_complete: "columnPre col \<Longrightarrow> \<not> completeRunAt (stripRun col)"
  by (intro columnInv_not_complete columnInv_stripRun)

lemma validFrom_faceUp: "validFrom src i \<Longrightarrow> i \<le> k \<Longrightarrow> k < length src \<Longrightarrow> faceUp (src ! k)"
  by (simp add: validFrom_def)

lemma validFrom_adjacent: "validFrom src i \<Longrightarrow> i < k \<Longrightarrow> k < length src \<Longrightarrow> adjacentOk src k"
  by (simp add: validFrom_def)

lemma faceUpContiguous_append_moving:
  assumes t: "faceUpContiguous tgt" and v: "validFrom src i"
  shows "faceUpContiguous (tgt @ drop i src)"
proof (rule faceUpContiguousI)
  fix a b assume ab: "a \<le> b" "b < length (tgt @ drop i src)" "faceUp ((tgt @ drop i src) ! a)"
  show "faceUp ((tgt @ drop i src) ! b)"
  proof (cases "b < length tgt")
    case True
    with ab have "faceUp (tgt ! a)" by (simp add: nth_append)
    with True ab show ?thesis
      using faceUpContiguousD [OF t, of a b] by (simp add: nth_append)
  next
    case False
    with ab have "i + (b - length tgt) < length src" by auto
    with False show ?thesis
      using validFrom_faceUp [OF v, of "i + (b - length tgt)"] by (simp add: nth_append)
  qed
qed

lemma noBuriedRunBelow_append_moving:
  assumes t: "noBuriedRun tgt" and v: "validFrom src i"
  shows "noBuriedRunBelow (tgt @ drop i src)"
  unfolding noBuriedRunBelow_def
proof
  fix n assume "n \<in> {0..<length (tgt @ drop i src)}"
  then have n: "n < length tgt + (length src - i)" by simp
  show "\<not> completeRunAt (take n (tgt @ drop i src))"
  proof (cases "n \<le> length tgt")
    case True
    with t show ?thesis by (simp add: noBuriedRun_def)
  next
    case False
    then have gt: "length tgt < n" by simp
    show ?thesis
    proof
      assume r: "completeRunAt (take n (tgt @ drop i src))"
      let ?col = "tgt @ drop i src"
      have ln: "length (take n ?col) = n" using n by simp
      from completeRunAt_last_rank [OF r]
      have "getRankValue (rank (take n ?col ! (n - 1))) = 1" by (simp only: ln)
      moreover have "take n ?col ! (n - 1) = ?col ! (n - 1)"
        using gt by (intro nth_take) simp
      ultimately have r1: "getRankValue (rank (?col ! (n - 1))) = 1" by (simp only:)
      define k where "k = i + (n - length tgt)"
      from gt n have k: "i < k" "k < length src" by (simp_all add: k_def)
      from gt n have e1: "?col ! (n - 1) = src ! (k - 1)"
        by (simp add: nth_append k_def)
      from gt n have e2: "?col ! n = src ! k"
        by (simp add: nth_append k_def)
      from validFrom_adjacent [OF v k]
      have "getRankValue (rank (src ! (k - 1))) - getRankValue (rank (src ! k)) = 1"
        by (simp add: adjacentOk_def)
      with r1 e1 have "getRankValue (rank (src ! k)) = 0" by simp
      with getRankValue_pos [of "rank (src ! k)"] show False by simp
    qed
  qed
qed

lemma columnPre_append_moving:
  "columnInv tgt \<Longrightarrow> validFrom src i \<Longrightarrow> columnPre (tgt @ drop i src)"
  by (simp add: columnInv_def columnPre_def faceUpContiguous_append_moving
      noBuriedRunBelow_append_moving)

lemma columnPre_append_dealt:
  assumes "columnInv col" "faceUp c"
  shows "columnPre (col @ [c])"
  unfolding columnPre_def
proof
  from assms(1) have t: "faceUpContiguous col" by (simp add: columnInv_def)
  show "faceUpContiguous (col @ [c])"
  proof (rule faceUpContiguousI)
    fix a b assume ab: "a \<le> b" "b < length (col @ [c])" "faceUp ((col @ [c]) ! a)"
    show "faceUp ((col @ [c]) ! b)"
    proof (cases "b < length col")
      case True
      with ab have "faceUp (col ! a)" by (simp add: nth_append)
      with True ab show ?thesis
        using faceUpContiguousD [OF t, of a b] by (simp add: nth_append)
    next
      case False
      with ab have "b = length col" by simp
      with assms(2) show ?thesis by simp
    qed
  qed
  show "noBuriedRunBelow (col @ [c])"
    using assms(1) by (simp add: noBuriedRunBelow_def columnInv_def noBuriedRun_def)
qed

lemma movedState_columnPre:
  assumes inv: "\<forall>col\<in>set (columns s). columnInv col"
    and ne: "src \<noteq> tgt"
    and src: "src < length (columns s)" and tgt: "tgt < length (columns s)"
    and i: "i < length (columns s ! src)" and v: "validFrom (columns s ! src) i"
  shows "\<forall>col\<in>set (columns (movedState s src i tgt)). columnPre col"
proof -
  have all: "columnInv (columns s ! k)" if "k < length (columns s)" for k
    using inv that by simp
  have a: "columnPre (flipTop (take i (columns s ! src)))"
    using all [OF src] i by (intro columnInv_imp_Pre columnInv_flipTop_take) simp_all
  have b: "columnPre (columns s ! tgt @ drop i (columns s ! src))"
    using all [OF tgt] v by (rule columnPre_append_moving)
  have "columnPre (columns (movedState s src i tgt) ! k)" if "k < length (columns s)" for k
    using that a b columnInv_imp_Pre [OF all [OF that]] src tgt
    by (auto simp: movedState_fields nth_list_update)
  then show ?thesis
    by (simp add: all_set_conv_all_nth movedState_fields)
qed

lemma dealtState_columnPre:
  assumes inv: "\<forall>col\<in>set (columns s). columnInv col"
  shows "\<forall>col\<in>set (columns (dealtState s)). columnPre col"
  using inv by (auto simp: dealtState_fields intro!: columnPre_append_dealt)

section \<open>The invariant of a game\<close>

lemma cardCount_eq:
  "cardCount s = int (length (concat (columns s))) + int (length (concat (stock s)))"
  by (simp add: cardCount_def cardsOf_def)

lemma length_stripRun:
  "int (length (stripRun col)) = int (length col) - (if completeRunAt col then 13 else 0)"
  by (auto simp: stripRun_def dest: completeRunAt_length)

lemma length_concat_stripRun:
  "int (length (concat (map stripRun cols))) + 13 * runsIn cols = int (length (concat cols))"
proof (induction cols)
  case Nil
  then show ?case by (simp add: runsIn_def runCount_def)
next
  case (Cons c cols)
  have "runsIn (c # cols) = (if completeRunAt c then 1 else 0) + runsIn cols"
    by (simp add: runsIn_def runCount_def)
  with Cons show ?case
    using length_stripRun [of c] by simp
qed

lemma runsIn_nonneg: "0 \<le> runsIn cols"
  by (simp add: runsIn_def)

lemma length_concat_update:
  "k < length xs \<Longrightarrow>
   int (length (concat (xs[k := v]))) = int (length (concat xs)) - int (length (xs ! k)) + int (length v)"
proof (induction xs arbitrary: k)
  case Nil
  then show ?case by simp
next
  case (Cons x xs)
  then show ?case by (cases k) simp_all
qed

lemma length_concat_moved:
  assumes "src \<noteq> tgt" "src < length cols" "tgt < length cols" "i \<le> length (cols ! src)"
  shows "length (concat (cols[src := flipTop (take i (cols ! src)),
                              tgt := cols ! tgt @ drop i (cols ! src)]))
         = length (concat cols)"
proof -
  let ?a = "cols[src := flipTop (take i (cols ! src))]"
  have "int (length (concat (?a[tgt := cols ! tgt @ drop i (cols ! src)])))
        = int (length (concat ?a)) - int (length (?a ! tgt))
          + int (length (cols ! tgt @ drop i (cols ! src)))"
    using assms by (intro length_concat_update) simp
  also have "int (length (concat ?a))
        = int (length (concat cols)) - int (length (cols ! src))
          + int (length (flipTop (take i (cols ! src))))"
    using assms by (intro length_concat_update) simp
  finally have "int (length (concat (?a[tgt := cols ! tgt @ drop i (cols ! src)])))
                 = int (length (concat cols))"
    using assms by (simp add: min_def)
  then show ?thesis by (simp only: of_nat_eq_iff)
qed

lemma sum_list_Suc: "sum_list (map (\<lambda>x. Suc (f x)) xs) = sum_list (map f xs) + length xs"
  by (induction xs) simp_all

lemma length_concat_dealt:
  "length (concat (map (\<lambda>k. cols ! k @ [f k]) [0..<length cols]))
     = length (concat cols) + length cols"
proof -
  have "map (\<lambda>k. length (cols ! k)) [0..<length cols] = map length cols"
    by (intro nth_equalityI) simp_all
  then have "sum_list (map (\<lambda>k. length (cols ! k)) [0..<length cols]) = sum_list (map length cols)"
    by simp
  then show ?thesis
    by (simp add: length_concat comp_def sum_list_Suc)
qed

lemma length_concat_butlast:
  "st \<noteq> [] \<Longrightarrow> length (concat (butlast st)) + length (last st) = length (concat st)"
  by (induction st rule: rev_induct) simp_all

lemma cardCount_movedState:
  assumes "src \<noteq> tgt" "src < length (columns s)" "tgt < length (columns s)"
    "i \<le> length (columns s ! src)"
  shows "cardCount (movedState s src i tgt) = cardCount s"
  using length_concat_moved [OF assms]
  by (simp add: cardCount_eq movedState_fields)

lemma cardCount_dealtState:
  assumes "stock s \<noteq> []" "length (last (stock s)) = length (columns s)"
  shows "cardCount (dealtState s) = cardCount s"
  using length_concat_butlast [OF assms(1)] assms(2)
  by (simp add: cardCount_eq dealtState_fields length_concat_dealt)

lemma gameInv_removeCompleteRuns:
  assumes "length (columns m) = 10"
    and "\<forall>pile\<in>set (stock m). length pile = 10"
    and "cardCount m + 13 * completedRuns m = 104"
    and "0 \<le> completedRuns m"
    and "\<forall>col\<in>set (columns m). columnPre col"
    and "removeCompleteRuns m = Inr s'"
  shows "gameInv s'"
proof -
  have "0 \<le> cardCount m" by (simp add: cardCount_def)
  with assms(3,4) have "\<bar>completedRuns m\<bar> \<le> 8" by simp
  moreover have "int (runCount (columns m)) \<le> 10"
    using runCount_le [of "columns m"] assms(1) by simp
  ultimately have "\<bar>completedRuns m\<bar> + int (runCount (columns m)) \<le> 9007199254740992"
    by simp
  then have runs: "addRuns (runCount (columns m)) (completedRuns m)
                   = completedRuns m + runsIn (columns m)"
    by (simp add: addRuns_exact runsIn_def)
  from assms(6) have s': "s' = m\<lparr>columns := map stripRun (columns m),
            completedRuns := completedRuns m + runsIn (columns m),
            score := addScore (runCount (columns m)) (score m)\<rparr>"
    by (simp add: removeCompleteRuns_closed runs)
  have "cardCount s' + 13 * completedRuns s' = cardCount m + 13 * completedRuns m"
    using length_concat_stripRun [of "columns m"] by (simp add: s' cardCount_eq)
  moreover have "\<forall>col\<in>set (columns s'). columnInv col"
    using assms(5) by (simp add: s' columnInv_stripRun)
  ultimately show ?thesis
    using assms(1-4) runsIn_nonneg [of "columns m"] by (simp add: gameInv_def s')
qed

lemma gameInv_moveCards:
  assumes inv: "gameInv s" and mv: "moveCards s src i tgt = Inr s'"
  shows "gameInv s'"
proof (cases "src \<noteq> tgt \<and>
    canMoveCards (nth_js (columns s) src) i (nth_js (columns s) tgt) = Inr True")
  case True
  then have ne: "src \<noteq> tgt"
    and ok: "canMoveCards (nth_js (columns s) src) i (nth_js (columns s) tgt) = Inr True"
    by simp_all
  from ok obtain source target where st:
    "nth_js (columns s) src = Some source" "nth_js (columns s) tgt = Some target"
    "0 \<le> i" "i < int (length source)" "validFrom source (nat i)"
    by (rule canMoveCards_True)
  then have r: "nat src < length (columns s)" "nat tgt < length (columns s)"
    "source = columns s ! nat src" "nat src \<noteq> nat tgt"
    using ne by (auto simp: nth_js_Some)
  from st r have i: "nat i < length (columns s ! nat src)" by simp
  let ?m = "movedState s (nat src) (nat i) (nat tgt)"
  have rm: "removeCompleteRuns ?m = Inr s'"
    using mv moveCards_accept [OF ne ok] by simp
  have cc: "cardCount ?m = cardCount s"
    using r i by (intro cardCount_movedState) simp_all
  have pre: "\<forall>col\<in>set (columns ?m). columnPre col"
    using inv r i st(5) by (intro movedState_columnPre) (simp_all add: gameInv_def)
  show ?thesis
    using inv cc pre rm
    by (intro gameInv_removeCompleteRuns [of ?m]) (simp_all add: gameInv_def movedState_fields)
next
  case False
  then have "moveCards s src i tgt = Inr s \<or> (\<exists>e. moveCards s src i tgt = Inl e)"
    by (auto simp: moveCards_def split: sum.splits)
  with mv inv show ?thesis by auto
qed

lemma gameInv_dealFromStock:
  assumes inv: "gameInv s" and dl: "dealFromStock s = Inr (Some s')"
  shows "gameInv s'"
proof -
  from dl have ne: "stock s \<noteq> []" "\<forall>col\<in>set (columns s). col \<noteq> []"
    using dealFromStock_None [of s] by (auto simp: dealFromStock_def list_ex_iff split: if_splits)
  from ne inv have len: "length (last (stock s)) = length (columns s)"
    by (simp add: gameInv_def)
  then have eq: "dealFromStock s = map_sum id Some (removeCompleteRuns (dealtState s))"
    using ne by (intro dealFromStock_Some) simp_all
  with dl have rm: "removeCompleteRuns (dealtState s) = Inr s'"
    by (simp add: removeCompleteRuns_closed)
  have cc: "cardCount (dealtState s) = cardCount s"
    using ne(1) len by (rule cardCount_dealtState)
  have pre: "\<forall>col\<in>set (columns (dealtState s)). columnPre col"
    using inv by (intro dealtState_columnPre) (simp add: gameInv_def)
  have piles: "\<forall>pile\<in>set (butlast (stock s)). length pile = 10"
    using inv by (auto simp: gameInv_def dest: in_set_butlastD)
  show ?thesis
    using inv cc pre rm piles
    by (intro gameInv_removeCompleteRuns [of "dealtState s"])
       (simp_all add: gameInv_def dealtState_fields)
qed

lemma short_noBuriedRun: "length col < 13 \<Longrightarrow> noBuriedRun col"
  by (auto simp: noBuriedRun_def dest!: completeRunAt_length)

lemma top_only_contiguous:
  assumes "col \<noteq> []" "faceUp (last col)" "\<forall>c\<in>set (butlast col). \<not> faceUp c"
  shows "faceUpContiguous col"
proof (rule faceUpContiguousI)
  fix i j assume ij: "i \<le> j" "j < length col" "faceUp (col ! i)"
  have "i = length col - 1"
  proof (rule ccontr)
    assume "i \<noteq> length col - 1"
    with ij have "i < length (butlast col)" by simp
    then have "butlast col ! i \<in> set (butlast col)" by (rule nth_mem)
    with assms(3) ij \<open>i < length (butlast col)\<close> show False
      by (simp add: nth_butlast)
  qed
  with ij have "j = length col - 1" by simp
  with assms show "faceUp (col ! j)" by (simp add: last_conv_nth)
qed

lemma createGame_counters:
  "completedRuns (createGame rnd d) = 0" "score (createGame rnd d) = 500"
  "moves (createGame rnd d) = 0" "difficulty (createGame rnd d) = d"
  by (simp_all add: createGame_closed)

lemma gameInv_createGame: "gameInv (createGame rnd d)"
proof -
  let ?s = "createGame rnd d"
  have l: "map length (columns ?s) = [6, 6, 6, 6, 5, 5, 5, 5, 5, 5]"
    by (rule createGame_columns(1))
  then have "length (map length (columns ?s)) = 10" by simp
  then have l10: "length (columns ?s) = 10" by simp
  have short: "length col < 13" if "col \<in> set (columns ?s)" for col
  proof -
    from that have "length col \<in> set (map length (columns ?s))" by simp
    then show ?thesis unfolding l by auto
  qed
  have cols: "\<forall>col\<in>set (columns ?s). columnInv col"
    using createGame_columns(2) [of rnd d] short
    by (auto simp: columnInv_def intro: top_only_contiguous short_noBuriedRun)
  have "length pile \<in> set (map length (stock ?s))" if "pile \<in> set (stock ?s)" for pile
    using that by simp
  then have piles: "\<forall>pile\<in>set (stock ?s). length pile = 10"
    unfolding createGame_stock(1) by auto
  show ?thesis
    using l10 cols piles createGame_cardCount [of rnd d]
    by (simp add: gameInv_def createGame_counters)
qed

lemma reachable_gameInv: "reachable s \<Longrightarrow> gameInv s"
proof (induction rule: reachable.induct)
  case (reach_create d rnd)
  show ?case by (rule gameInv_createGame)
next
  case (reach_move s src i tgt s')
  then show ?case by (auto intro: gameInv_moveCards)
next
  case (reach_deal s s')
  then show ?case by (auto intro: gameInv_dealFromStock)
qed

lemma gameInv_won_iff:
  assumes "gameInv s"
  shows "completedRuns s = 8 \<longleftrightarrow> (\<forall>col\<in>set (columns s). col = []) \<and> stock s = []"
proof -
  from assms have cc: "cardCount s + 13 * completedRuns s = 104"
    and piles: "\<forall>pile\<in>set (stock s). length pile = 10"
    by (simp_all add: gameInv_def)
  have "completedRuns s = 8 \<longleftrightarrow> cardCount s = 0"
    using cc by auto
  also have "\<dots> \<longleftrightarrow> concat (columns s) = [] \<and> concat (stock s) = []"
  proof -
    have "cardCount s = 0 \<longleftrightarrow> length (concat (columns s)) + length (concat (stock s)) = 0"
      unfolding cardCount_eq by linarith
    then show ?thesis by simp
  qed
  also have "\<dots> \<longleftrightarrow> (\<forall>col\<in>set (columns s). col = []) \<and> (\<forall>pile\<in>set (stock s). pile = [])"
    by simp
  also have "(\<forall>pile\<in>set (stock s). pile = []) \<longleftrightarrow> stock s = []"
  proof
    assume a: "\<forall>pile\<in>set (stock s). pile = []"
    show "stock s = []"
    proof (cases "stock s")
      case Nil
      then show ?thesis .
    next
      case (Cons p ps)
      then have "p \<in> set (stock s)" by simp
      with a piles have "p = []" "length p = 10" by simp_all
      then show ?thesis by simp
    qed
  next
    assume "stock s = []"
    then show "\<forall>pile\<in>set (stock s). pile = []" by simp
  qed
  finally show ?thesis .
qed

lemma afterFirstDeal_reachable:
  "reachable afterFirstDeal" "moves afterFirstDeal = 1"
proof -
  let ?s = "createGame (\<lambda>i. 0) 1"
  have inv: "gameInv ?s" by (rule gameInv_createGame)
  have st: "stock ?s \<noteq> []"
    using createGame_stock(1) [of "\<lambda>i. 0" 1] by auto
  have cols: "\<forall>col\<in>set (columns ?s). col \<noteq> []"
    using createGame_columns(2) [of "\<lambda>i. 0" 1] by simp
  from st inv have len: "length (columns ?s) \<le> length (last (stock ?s))"
    by (simp add: gameInv_def)
  have "dealFromStock ?s = map_sum id Some (removeCompleteRuns (dealtState ?s))"
    using st cols len by (rule dealFromStock_Some)
  then obtain x where x: "dealFromStock ?s = Inr (Some x)" "moves x = moves (dealtState ?s)"
    by (simp add: removeCompleteRuns_closed)
  then have a: "afterFirstDeal = x" by (simp add: afterFirstDeal_def)
  have "reachable ?s" by (rule reach_create) simp
  then have "reachable x" using x(1) by (rule reach_deal)
  then show "reachable afterFirstDeal" by (simp add: a)
  show "moves afterFirstDeal = 1"
    using x(2) by (simp add: a dealtState_fields createGame_counters js_add_exact)
qed

section \<open>Card count and the win test (claim C4)\<close>

text \<open>
  Claim C4. For every state reachable from \<open>createGame\<close> by any sequence of
  \<open>moveCards\<close> and \<open>dealFromStock\<close>, the number of cards in the ten columns plus
  the number of cards in the stock plus 13 times \<open>completedRuns\<close> is 104,
  \<open>completedRuns\<close> lies between 0 and 8, \<open>isGameWon\<close> is true if and only if
  \<open>completedRuns\<close> is 8, and that holds if and only if all columns and the stock are
  empty.
\<close>

theorem reachable_card_count:
  assumes "reachable s"
  shows "length (columns s) = 10 \<and>
         cardCount s = int (sum_list (map length (columns s)))
                       + int (sum_list (map length (stock s))) \<and>
         cardCount s + 13 * completedRuns s = 104 \<and>
         0 \<le> completedRuns s \<and> completedRuns s \<le> 8 \<and>
         (isGameWon s \<longleftrightarrow> completedRuns s = 8) \<and>
         (completedRuns s = 8 \<longleftrightarrow> (\<forall>col\<in>set (columns s). col = []) \<and> stock s = [])"
proof -
  from assms have inv: "gameInv s" by (rule reachable_gameInv)
  then have cc: "cardCount s + 13 * completedRuns s = 104" and nn: "0 \<le> completedRuns s"
    and l: "length (columns s) = 10"
    by (simp_all add: gameInv_def)
  have "0 \<le> cardCount s" by (simp add: cardCount_def)
  with cc have le: "completedRuns s \<le> 8" by simp
  have sums: "cardCount s = int (sum_list (map length (columns s)))
                       + int (sum_list (map length (stock s)))"
    by (simp add: cardCount_eq length_concat)
  show ?thesis
    using l sums cc nn le gameInv_won_iff [OF inv] by (simp add: isGameWon_def)
qed

theorem reachable_card_count_witness:
  "reachable afterFirstDeal \<and> moves afterFirstDeal = 1 \<and>
   cardCount afterFirstDeal + 13 * completedRuns afterFirstDeal = 104 \<and>
   completedRuns afterFirstDeal \<le> 8"
  using reachable_card_count [OF afterFirstDeal_reachable(1)] afterFirstDeal_reachable
  by simp

section \<open>Face-up contiguity (claim C8)\<close>

text \<open>
  Claim C8. For every state reachable from \<open>createGame\<close> by any sequence of
  \<open>moveCards\<close> and \<open>dealFromStock\<close>, every column satisfies face-up contiguity:
  whenever a card of the column is face-up, every card above it is face-up.
\<close>

theorem reachable_face_up_contiguous:
  assumes "reachable s"
  shows "\<forall>col\<in>set (columns s). faceUpContiguous col"
  using reachable_gameInv [OF assms] by (simp add: gameInv_def columnInv_def)

theorem reachable_face_up_contiguous_witness:
  "reachable afterFirstDeal \<and> moves afterFirstDeal = 1 \<and>
   list_all faceUpContiguous (columns afterFirstDeal)"
  using reachable_face_up_contiguous [OF afterFirstDeal_reachable(1)] afterFirstDeal_reachable
  by (simp add: list_all_iff)

section \<open>No complete run is left behind (claim C10)\<close>

text \<open>
  Claim C10. For every state reachable from \<open>createGame\<close> by any sequence of
  \<open>moveCards\<close> and \<open>dealFromStock\<close>, \<open>checkCompleteRun\<close> reports
  \<open>found = false\<close> on each of the ten columns. Moreover, in every column of the state
  that an accepted move or a deal builds from a reachable state, the removal of a complete
  run with the flip of the new top card (\<open>stripRun\<close>) leaves no complete run.
\<close>

theorem reachable_no_complete_run:
  assumes "reachable s"
  shows "length (columns s) = 10 \<and>
         (\<forall>col\<in>set (columns s). checkCompleteRun col = Inr \<lparr>found = False, startIndex = - 1\<rparr>) \<and>
         (\<forall>src i tgt.
            src \<noteq> tgt \<and>
            canMoveCards (nth_js (columns s) src) i (nth_js (columns s) tgt) = Inr True \<longrightarrow>
            (\<forall>col\<in>set (columns (movedState s (nat src) (nat i) (nat tgt))).
               \<not> completeRunAt (stripRun col))) \<and>
         (stock s \<noteq> [] \<longrightarrow>
            (\<forall>col\<in>set (columns (dealtState s)). \<not> completeRunAt (stripRun col)))"
proof (intro conjI allI impI)
  from assms have inv: "gameInv s" by (rule reachable_gameInv)
  then have cols: "\<forall>col\<in>set (columns s). columnInv col" by (simp add: gameInv_def)
  from inv show "length (columns s) = 10" by (simp add: gameInv_def)
  show "\<forall>col\<in>set (columns s). checkCompleteRun col = Inr \<lparr>found = False, startIndex = - 1\<rparr>"
    using cols by (auto simp: checkCompleteRun_Inr notFound_def dest: columnInv_not_complete)
  show "\<forall>col\<in>set (columns (dealtState s)). \<not> completeRunAt (stripRun col)"
    using dealtState_columnPre [OF cols] by (auto dest: stripRun_not_complete)
  fix src i tgt
  assume a: "src \<noteq> tgt \<and>
    canMoveCards (nth_js (columns s) src) i (nth_js (columns s) tgt) = Inr True"
  then have ne: "src \<noteq> tgt"
    and ok: "canMoveCards (nth_js (columns s) src) i (nth_js (columns s) tgt) = Inr True"
    by simp_all
  from ok obtain source target where st:
    "nth_js (columns s) src = Some source" "nth_js (columns s) tgt = Some target"
    "0 \<le> i" "i < int (length source)" "validFrom source (nat i)"
    by (rule canMoveCards_True)
  then have r: "nat src < length (columns s)" "nat tgt < length (columns s)"
    "source = columns s ! nat src" "nat src \<noteq> nat tgt"
    using ne by (auto simp: nth_js_Some)
  from st r have i: "nat i < length (columns s ! nat src)" by simp
  have "\<forall>col\<in>set (columns (movedState s (nat src) (nat i) (nat tgt))). columnPre col"
    using cols r i st(5) by (intro movedState_columnPre) simp_all
  then show "\<forall>col\<in>set (columns (movedState s (nat src) (nat i) (nat tgt))).
               \<not> completeRunAt (stripRun col)"
    by (auto dest: stripRun_not_complete)
qed

theorem reachable_no_complete_run_witness:
  "reachable afterFirstDeal \<and> moves afterFirstDeal = 1 \<and>
   length (columns afterFirstDeal) = 10 \<and>
   list_all (\<lambda>col. checkCompleteRun col = Inr \<lparr>found = False, startIndex = - 1\<rparr>)
     (columns afterFirstDeal)"
  using reachable_no_complete_run [OF afterFirstDeal_reachable(1)] afterFirstDeal_reachable
  by (simp add: list_all_iff)

section \<open>The hint search as a search of the candidate list\<close>

lemma find_append_case:
  "List.find P (xs @ ys) = (case List.find P xs of None \<Rightarrow> List.find P ys | Some x \<Rightarrow> Some x)"
  by (induction xs) simp_all

lemma find_map_comp: "List.find P (map f xs) = map_option f (List.find (\<lambda>x. P (f x)) xs)"
  by (induction xs) simp_all

lemma validFrom_start_faceUp: "validFrom col i \<Longrightarrow> i < length col \<Longrightarrow> faceUp (col ! i)"
  by (simp add: validFrom_def)

lemma hint1_tgt_find:
  assumes s: "s < length (columns gs)"
  shows "t \<le> length (columns gs) \<Longrightarrow>
         hint1_tgt gs s i t =
           Inr (map_option (\<lambda>t. HintSameSuit s i t)
                  (List.find (\<lambda>t. tier1Move gs (s, i, t)) [t..<length (columns gs)]))"
proof (induction "length (columns gs) - t" arbitrary: t)
  case 0
  then show ?case by (subst hint1_tgt.simps) simp
next
  case (Suc d)
  then have lt: "t < length (columns gs)" and d: "d = length (columns gs) - Suc t"
    and le: "Suc t \<le> length (columns gs)"
    by simp_all
  note IH = Suc.hyps(1) [OF d le]
  have up: "[t..<length (columns gs)] = t # [Suc t..<length (columns gs)]"
    using lt by (rule upt_conv_Cons)
  let ?C = "i < length (columns gs ! s) \<and> validFrom (columns gs ! s) i \<and>
            (columns gs ! t = [] \<or>
             (faceUp (last (columns gs ! t)) \<and>
              getRankValue (rank (last (columns gs ! t)))
                - getRankValue (rank (columns gs ! s ! i)) = 1))"
  have can: "canMoveCards (Some (columns gs ! s)) (int i) (Some (columns gs ! t)) = Inr ?C"
    by (auto simp: canMoveCards_Some)
  have step: "hint1_tgt gs s i t =
      (if t = s then hint1_tgt gs s i (Suc t)
       else if columns gs ! t = [] then hint1_tgt gs s i (Suc t)
       else if ?C then
         (if suit (last (columns gs ! t)) = suit (columns gs ! s ! i)
          then Inr (Some (HintSameSuit s i t)) else hint1_tgt gs s i (Suc t))
       else hint1_tgt gs s i (Suc t))"
    using lt s
    by (subst hint1_tgt.simps) (simp add: can Let_def last_conv_nth)
  show ?case
    unfolding up step IH
    by (simp add: tier1Move_def legalMove_def)
qed

lemma tier1Move_valid:
  "tier1Move gs (s, i, t) \<Longrightarrow> validFrom (columns gs ! s) i \<and> faceUp (columns gs ! s ! i)"
  by (auto simp: tier1Move_def legalMove_def validFrom_start_faceUp)

lemma hint1_card_find:
  assumes s: "s < length (columns gs)"
  shows "i \<le> length (columns gs ! s) \<Longrightarrow>
         hint1_card gs s i =
           Inr (map_option (\<lambda>(s, i, t). HintSameSuit s i t)
                  (List.find (tier1Move gs)
                     (concat (map (\<lambda>idx. map (\<lambda>tgt. (s, idx, tgt)) [0..<length (columns gs)])
                                [i..<length (columns gs ! s)]))))"
proof (induction "length (columns gs ! s) - i" arbitrary: i)
  case 0
  then show ?case by (subst hint1_card.simps) simp
next
  case (Suc d)
  then have lt: "i < length (columns gs ! s)" and d: "d = length (columns gs ! s) - Suc i"
    and le: "Suc i \<le> length (columns gs ! s)"
    by simp_all
  note IH = Suc.hyps(1) [OF d le]
  have up: "[i..<length (columns gs ! s)] = i # [Suc i..<length (columns gs ! s)]"
    using lt by (rule upt_conv_Cons)
  let ?row = "map (\<lambda>tgt. (s, i, tgt)) [0..<length (columns gs)]"
  have row: "List.find (tier1Move gs) ?row
             = map_option (\<lambda>t. (s, i, t))
                 (List.find (\<lambda>t. tier1Move gs (s, i, t)) [0..<length (columns gs)])"
    by (rule find_map_comp)
  have none: "List.find (tier1Move gs) ?row = None"
    if "\<not> faceUp (columns gs ! s ! i) \<or> \<not> validFrom (columns gs ! s) i"
    using that by (auto simp: find_None_iff dest: tier1Move_valid)
  have step: "hint1_card gs s i =
      (if \<not> faceUp (columns gs ! s ! i) then hint1_card gs s (Suc i)
       else if \<not> validFrom (columns gs ! s) i then hint1_card gs s (Suc i)
       else (case List.find (\<lambda>t. tier1Move gs (s, i, t)) [0..<length (columns gs)] of
               Some t \<Rightarrow> Inr (Some (HintSameSuit s i t))
             | None \<Rightarrow> hint1_card gs s (Suc i)))"
    using lt
    by (subst hint1_card.simps)
       (simp add: isValidSequence_nat hint1_tgt_find [OF s] split: option.splits)
  show ?case
  proof (cases "\<not> faceUp (columns gs ! s ! i) \<or> \<not> validFrom (columns gs ! s) i")
    case True
    then show ?thesis
      unfolding up step IH
      by (auto simp: find_append_case none)
  next
    case False
    then show ?thesis
      unfolding up step IH
      by (simp add: find_append_case row split: option.splits)
  qed
qed

lemma hint1_src_find:
  "s \<le> length (columns gs) \<Longrightarrow>
   hint1_src gs s =
     Inr (map_option (\<lambda>(s, i, t). HintSameSuit s i t)
            (List.find (tier1Move gs)
               (concat (map (\<lambda>src.
                  concat (map (\<lambda>idx. map (\<lambda>tgt. (src, idx, tgt)) [0..<length (columns gs)])
                            [0..<length (columns gs ! src)]))
                  [s..<length (columns gs)]))))"
proof (induction "length (columns gs) - s" arbitrary: s)
  case 0
  then show ?case by (subst hint1_src.simps) simp
next
  case (Suc d)
  then have lt: "s < length (columns gs)" and d: "d = length (columns gs) - Suc s"
    and le: "Suc s \<le> length (columns gs)"
    by simp_all
  note IH = Suc.hyps(1) [OF d le]
  have up: "[s..<length (columns gs)] = s # [Suc s..<length (columns gs)]"
    using lt by (rule upt_conv_Cons)
  show ?case
    unfolding up
    using lt
    by (subst hint1_src.simps)
       (simp add: hint1_card_find [OF lt] IH find_append_case split: option.splits)
qed


lemma hint2_tgt_find:
  assumes s: "s < length (columns gs)"
  shows "t \<le> length (columns gs) \<Longrightarrow>
         hint2_tgt gs s i t =
           Inr (map_option (\<lambda>t. HintAnyMove s i t)
                  (List.find (\<lambda>t. tier2Move gs (s, i, t)) [t..<length (columns gs)]))"
proof (induction "length (columns gs) - t" arbitrary: t)
  case 0
  then show ?case by (subst hint2_tgt.simps) simp
next
  case (Suc d)
  then have lt: "t < length (columns gs)" and d: "d = length (columns gs) - Suc t"
    and le: "Suc t \<le> length (columns gs)"
    by simp_all
  note IH = Suc.hyps(1) [OF d le]
  have up: "[t..<length (columns gs)] = t # [Suc t..<length (columns gs)]"
    using lt by (rule upt_conv_Cons)
  let ?C = "i < length (columns gs ! s) \<and> validFrom (columns gs ! s) i \<and>
            (columns gs ! t = [] \<or>
             (faceUp (last (columns gs ! t)) \<and>
              getRankValue (rank (last (columns gs ! t)))
                - getRankValue (rank (columns gs ! s ! i)) = 1))"
  have can: "canMoveCards (Some (columns gs ! s)) (int i) (Some (columns gs ! t)) = Inr ?C"
    by (auto simp: canMoveCards_Some)
  have step: "hint2_tgt gs s i t =
      (if t = s then hint2_tgt gs s i (Suc t)
       else if ?C then
         (if columns gs ! t \<noteq> []
          then Inr (Some (HintAnyMove s i t)) else hint2_tgt gs s i (Suc t))
       else hint2_tgt gs s i (Suc t))"
    using lt s
    by (subst hint2_tgt.simps) (simp add: can)
  show ?case
    unfolding up step IH
    by (simp add: tier2Move_def legalMove_def)
qed

lemma tier2Move_valid:
  "tier2Move gs (s, i, t) \<Longrightarrow> validFrom (columns gs ! s) i \<and> faceUp (columns gs ! s ! i)"
  by (auto simp: tier2Move_def legalMove_def validFrom_start_faceUp)

lemma hint2_card_find:
  assumes s: "s < length (columns gs)"
  shows "i \<le> length (columns gs ! s) \<Longrightarrow>
         hint2_card gs s i =
           Inr (map_option (\<lambda>(s, i, t). HintAnyMove s i t)
                  (List.find (tier2Move gs)
                     (concat (map (\<lambda>idx. map (\<lambda>tgt. (s, idx, tgt)) [0..<length (columns gs)])
                                [i..<length (columns gs ! s)]))))"
proof (induction "length (columns gs ! s) - i" arbitrary: i)
  case 0
  then show ?case by (subst hint2_card.simps) simp
next
  case (Suc d)
  then have lt: "i < length (columns gs ! s)" and d: "d = length (columns gs ! s) - Suc i"
    and le: "Suc i \<le> length (columns gs ! s)"
    by simp_all
  note IH = Suc.hyps(1) [OF d le]
  have up: "[i..<length (columns gs ! s)] = i # [Suc i..<length (columns gs ! s)]"
    using lt by (rule upt_conv_Cons)
  let ?row = "map (\<lambda>tgt. (s, i, tgt)) [0..<length (columns gs)]"
  have row: "List.find (tier2Move gs) ?row
             = map_option (\<lambda>t. (s, i, t))
                 (List.find (\<lambda>t. tier2Move gs (s, i, t)) [0..<length (columns gs)])"
    by (rule find_map_comp)
  have none: "List.find (tier2Move gs) ?row = None"
    if "\<not> faceUp (columns gs ! s ! i) \<or> \<not> validFrom (columns gs ! s) i"
    using that by (auto simp: find_None_iff dest: tier2Move_valid)
  have step: "hint2_card gs s i =
      (if \<not> faceUp (columns gs ! s ! i) then hint2_card gs s (Suc i)
       else if \<not> validFrom (columns gs ! s) i then hint2_card gs s (Suc i)
       else (case List.find (\<lambda>t. tier2Move gs (s, i, t)) [0..<length (columns gs)] of
               Some t \<Rightarrow> Inr (Some (HintAnyMove s i t))
             | None \<Rightarrow> hint2_card gs s (Suc i)))"
    using lt
    by (subst hint2_card.simps)
       (simp add: isValidSequence_nat hint2_tgt_find [OF s] split: option.splits)
  show ?case
  proof (cases "\<not> faceUp (columns gs ! s ! i) \<or> \<not> validFrom (columns gs ! s) i")
    case True
    then show ?thesis
      unfolding up step IH
      by (auto simp: find_append_case none)
  next
    case False
    then show ?thesis
      unfolding up step IH
      by (simp add: find_append_case row split: option.splits)
  qed
qed

lemma hint2_src_find:
  "s \<le> length (columns gs) \<Longrightarrow>
   hint2_src gs s =
     Inr (map_option (\<lambda>(s, i, t). HintAnyMove s i t)
            (List.find (tier2Move gs)
               (concat (map (\<lambda>src.
                  concat (map (\<lambda>idx. map (\<lambda>tgt. (src, idx, tgt)) [0..<length (columns gs)])
                            [0..<length (columns gs ! src)]))
                  [s..<length (columns gs)]))))"
proof (induction "length (columns gs) - s" arbitrary: s)
  case 0
  then show ?case by (subst hint2_src.simps) simp
next
  case (Suc d)
  then have lt: "s < length (columns gs)" and d: "d = length (columns gs) - Suc s"
    and le: "Suc s \<le> length (columns gs)"
    by simp_all
  note IH = Suc.hyps(1) [OF d le]
  have up: "[s..<length (columns gs)] = s # [Suc s..<length (columns gs)]"
    using lt by (rule upt_conv_Cons)
  show ?case
    unfolding up
    using lt
    by (subst hint2_src.simps)
       (simp add: hint2_card_find [OF lt] IH find_append_case split: option.splits)
qed


lemma findHint_refines: "findHint gs = Inr (findHint_spec gs)"
  unfolding findHint_def findHint_spec_def hintCandidates_def
  by (simp add: hint1_src_find hint2_src_find split: option.splits)

lemma sorted_wrt_concat_map:
  assumes "\<And>x. x \<in> set xs \<Longrightarrow> sorted_wrt R (f x)"
    and "sorted_wrt (\<lambda>x y. \<forall>a\<in>set (f x). \<forall>b\<in>set (f y). R a b) xs"
  shows "sorted_wrt R (concat (map f xs))"
  using assms by (induction xs) (auto simp: sorted_wrt_append)

lemma sorted_wrt_upt_rel:
  assumes "\<And>x y. x < y \<Longrightarrow> y < n \<Longrightarrow> Q x y"
  shows "sorted_wrt Q [m..<n]"
proof -
  have "sorted_wrt (<) [m..<n]" by simp
  then show ?thesis
    by (rule sorted_wrt_mono_rel [rotated]) (simp add: assms)
qed

lemma hintCandidates_sorted: "sorted_wrt candidateBefore (hintCandidates gs)"
  unfolding hintCandidates_def
proof (intro sorted_wrt_concat_map sorted_wrt_upt_rel)
  fix s i
  show "sorted_wrt candidateBefore (map (\<lambda>tgt. (s, i, tgt)) [0..<length (columns gs)])"
    by (simp add: sorted_wrt_map candidateBefore_def)
next
  fix s i i' :: nat assume "i < i'"
  then show "\<forall>a\<in>set (map (\<lambda>tgt. (s, i, tgt)) [0..<length (columns gs)]).
             \<forall>b\<in>set (map (\<lambda>tgt. (s, i', tgt)) [0..<length (columns gs)]). candidateBefore a b"
    by (simp add: candidateBefore_def)
next
  fix s s' :: nat assume "s < s'"
  then show "\<forall>a\<in>set (concat (map (\<lambda>idx. map (\<lambda>tgt. (s, idx, tgt)) [0..<length (columns gs)])
                                 [0..<length (columns gs ! s)])).
             \<forall>b\<in>set (concat (map (\<lambda>idx. map (\<lambda>tgt. (s', idx, tgt)) [0..<length (columns gs)])
                                 [0..<length (columns gs ! s')])). candidateBefore a b"
    by (auto simp: candidateBefore_def)
qed

lemma hintCandidates_set:
  "(s, i, t) \<in> set (hintCandidates gs) \<longleftrightarrow>
     s < length (columns gs) \<and> i < length (columns gs ! s) \<and> t < length (columns gs)"
  by (fastforce simp: hintCandidates_def)

lemma find_sorted_wrt_first:
  assumes "sorted_wrt R xs" "List.find P xs = Some x"
  shows "P x \<and> x \<in> set xs \<and> (\<forall>y\<in>set xs. P y \<longrightarrow> y = x \<or> R x y)"
  using assms
proof (induction xs)
  case Nil
  then show ?case by simp
next
  case (Cons a xs)
  show ?case
  proof (cases "P a")
    case True
    with Cons.prems show ?thesis by auto
  next
    case False
    with Cons.prems have "sorted_wrt R xs" "List.find P xs = Some x" by simp_all
    from Cons.IH [OF this] False show ?thesis by auto
  qed
qed

lemma candidateBefore_asym: "candidateBefore a b \<Longrightarrow> \<not> candidateBefore b a"
  by (auto simp: candidateBefore_def)

lemma find_candidates_iff:
  "List.find P (hintCandidates gs) = Some c \<longleftrightarrow>
     c \<in> set (hintCandidates gs) \<and> P c \<and>
     (\<forall>c'\<in>set (hintCandidates gs). P c' \<longrightarrow> c' = c \<or> candidateBefore c c')"
  (is "?L \<longleftrightarrow> ?R")
proof
  assume ?L
  with find_sorted_wrt_first [OF hintCandidates_sorted, of P gs c] show ?R by blast
next
  assume R: ?R
  then have "\<exists>x. x \<in> set (hintCandidates gs) \<and> P x" by blast
  then have "List.find P (hintCandidates gs) \<noteq> None"
    by (simp only: find_None_iff not_not)
  then obtain y where y: "List.find P (hintCandidates gs) = Some y" by auto
  from find_sorted_wrt_first [OF hintCandidates_sorted y]
  have "P y" "y \<in> set (hintCandidates gs)"
    "\<forall>c'\<in>set (hintCandidates gs). P c' \<longrightarrow> c' = y \<or> candidateBefore y c'"
    by simp_all
  with R have "y = c \<or> candidateBefore c y" "c = y \<or> candidateBefore y c"
    by blast+
  then have "y = c" using candidateBefore_asym by blast
  with y show ?L by simp
qed

lemma tier1_imp_tier2: "tier1Move gs c \<Longrightarrow> tier2Move gs c"
  by (auto simp: tier1Move_def tier2Move_def)

lemma findHint_spec_cases:
  "findHint_spec gs = HintSameSuit s i t \<longleftrightarrow>
     List.find (tier1Move gs) (hintCandidates gs) = Some (s, i, t)"
  "findHint_spec gs = HintAnyMove s i t \<longleftrightarrow>
     List.find (tier1Move gs) (hintCandidates gs) = None \<and>
     List.find (tier2Move gs) (hintCandidates gs) = Some (s, i, t)"
  "findHint_spec gs = HintDeal \<longleftrightarrow>
     List.find (tier2Move gs) (hintCandidates gs) = None \<and> stock gs \<noteq> []"
  "findHint_spec gs = HintNone \<longleftrightarrow>
     List.find (tier2Move gs) (hintCandidates gs) = None \<and> stock gs = []"
proof -
  have n: "List.find (tier1Move gs) (hintCandidates gs) = None"
    if "List.find (tier2Move gs) (hintCandidates gs) = None"
    using that by (auto simp: find_None_iff dest: tier1_imp_tier2)
  show "findHint_spec gs = HintSameSuit s i t \<longleftrightarrow>
     List.find (tier1Move gs) (hintCandidates gs) = Some (s, i, t)"
    by (auto simp: findHint_spec_def split: option.splits)
  show "findHint_spec gs = HintAnyMove s i t \<longleftrightarrow>
     List.find (tier1Move gs) (hintCandidates gs) = None \<and>
     List.find (tier2Move gs) (hintCandidates gs) = Some (s, i, t)"
    by (auto simp: findHint_spec_def split: option.splits)
  show "findHint_spec gs = HintDeal \<longleftrightarrow>
     List.find (tier2Move gs) (hintCandidates gs) = None \<and> stock gs \<noteq> []"
    using n by (auto simp: findHint_spec_def split: option.splits)
  show "findHint_spec gs = HintNone \<longleftrightarrow>
     List.find (tier2Move gs) (hintCandidates gs) = None \<and> stock gs = []"
    using n by (auto simp: findHint_spec_def split: option.splits)
qed

section \<open>The two tiers of the hint search (claim C9)\<close>

text \<open>
  Claim C9. For every state, the hint search goes through the candidates (source
  column, card index, target column) in source-column-ascending, then
  card-index-ascending, then target-column-ascending order, the card being face-up and
  starting a valid sequence. It returns the first legal move whose target column is not
  empty and whose target top card has the suit of the moving sequence (tier 1); if there
  is none, the first legal move to a target column that is not empty (tier 2), so that an
  empty target column is never suggested; if there is none either, it reports "deal from
  stock" exactly when the stock is not empty and "no moves available" otherwise. It
  never throws.
\<close>

theorem findHint_two_tier:
  "findHint gs = Inr (findHint_spec gs) \<and>
   sorted_wrt candidateBefore (hintCandidates gs) \<and>
   (\<forall>s i t. (s, i, t) \<in> set (hintCandidates gs) \<longleftrightarrow>
      s < length (columns gs) \<and> i < length (columns gs ! s) \<and> t < length (columns gs)) \<and>
   (\<forall>s i t. findHint gs = Inr (HintSameSuit s i t) \<longleftrightarrow>
      (s, i, t) \<in> set (hintCandidates gs) \<and> tier1Move gs (s, i, t) \<and>
      (\<forall>c\<in>set (hintCandidates gs). tier1Move gs c \<longrightarrow> c = (s, i, t) \<or> candidateBefore (s, i, t) c)) \<and>
   (\<forall>s i t. findHint gs = Inr (HintAnyMove s i t) \<longleftrightarrow>
      (\<forall>c\<in>set (hintCandidates gs). \<not> tier1Move gs c) \<and>
      (s, i, t) \<in> set (hintCandidates gs) \<and> tier2Move gs (s, i, t) \<and>
      (\<forall>c\<in>set (hintCandidates gs). tier2Move gs c \<longrightarrow> c = (s, i, t) \<or> candidateBefore (s, i, t) c)) \<and>
   (findHint gs = Inr HintDeal \<longleftrightarrow>
      (\<forall>c\<in>set (hintCandidates gs). \<not> tier2Move gs c) \<and> stock gs \<noteq> []) \<and>
   (findHint gs = Inr HintNone \<longleftrightarrow>
      (\<forall>c\<in>set (hintCandidates gs). \<not> tier2Move gs c) \<and> stock gs = [])"
proof (intro conjI allI)
  show "findHint gs = Inr (findHint_spec gs)"
    by (rule findHint_refines)
  show "sorted_wrt candidateBefore (hintCandidates gs)"
    by (rule hintCandidates_sorted)
  show "(s, i, t) \<in> set (hintCandidates gs) \<longleftrightarrow>
      s < length (columns gs) \<and> i < length (columns gs ! s) \<and> t < length (columns gs)" for s i t
    by (rule hintCandidates_set)
  show "findHint gs = Inr (HintSameSuit s i t) \<longleftrightarrow>
      (s, i, t) \<in> set (hintCandidates gs) \<and> tier1Move gs (s, i, t) \<and>
      (\<forall>c\<in>set (hintCandidates gs). tier1Move gs c \<longrightarrow> c = (s, i, t) \<or> candidateBefore (s, i, t) c)"
    for s i t
    by (simp only: findHint_refines sum.inject findHint_spec_cases find_candidates_iff)
  show "findHint gs = Inr (HintAnyMove s i t) \<longleftrightarrow>
      (\<forall>c\<in>set (hintCandidates gs). \<not> tier1Move gs c) \<and>
      (s, i, t) \<in> set (hintCandidates gs) \<and> tier2Move gs (s, i, t) \<and>
      (\<forall>c\<in>set (hintCandidates gs). tier2Move gs c \<longrightarrow> c = (s, i, t) \<or> candidateBefore (s, i, t) c)"
    for s i t
    by (simp only: findHint_refines sum.inject findHint_spec_cases find_candidates_iff find_None_iff)
       blast
  show "findHint gs = Inr HintDeal \<longleftrightarrow>
      (\<forall>c\<in>set (hintCandidates gs). \<not> tier2Move gs c) \<and> stock gs \<noteq> []"
    by (simp only: findHint_refines sum.inject findHint_spec_cases find_None_iff) blast
  show "findHint gs = Inr HintNone \<longleftrightarrow>
      (\<forall>c\<in>set (hintCandidates gs). \<not> tier2Move gs c) \<and> stock gs = []"
    by (simp only: findHint_refines sum.inject findHint_spec_cases find_None_iff) blast
qed

theorem findHint_two_tier_witness:
  "findHint exampleState = Inr (HintSameSuit 3 0 0) \<and>
   List.find (tier2Move exampleState) (hintCandidates exampleState) = Some (0, 1, 1) \<and>
   tier1Move exampleState (3, 0, 0) \<and> \<not> tier1Move exampleState (0, 1, 1)"
proof -
  have "findHint_spec exampleState = HintSameSuit 3 0 0"
    by code_simp
  moreover have "List.find (tier2Move exampleState) (hintCandidates exampleState) = Some (0, 1, 1)"
    by code_simp
  moreover have "tier1Move exampleState (3, 0, 0)" "\<not> tier1Move exampleState (0, 1, 1)"
    by code_simp+
  ultimately show ?thesis
    using findHint_two_tier [of exampleState] by simp
qed

end
